theory Spec2Isabelle
  imports Complex_Main
begin


section \<open>Grid utilities (utils/grid-utils.ts, lib/level-generator.ts)\<close>

text \<open>
  Cells are linear indices into a \<open>width \<times> height\<close> grid; indices, dimensions and colour
  ids are natural numbers. JavaScript computes \<open>Math.floor(idx / width)\<close> and
  \<open>idx % width\<close> on doubles, so for \<open>width = 0\<close> the row is \<open>Infinity\<close> (or \<open>NaN\<close> for
  \<open>idx = 0\<close>) and the column is \<open>NaN\<close>; every comparison with \<open>NaN\<close> is false. That
  case is written out, since HOL's \<open>div\<close> and \<open>mod\<close> by zero behave differently.
\<close>

definition getNeighbors :: "nat \<Rightarrow> nat \<Rightarrow> nat \<Rightarrow> nat list" where
  "getNeighbors idx width height =
     (if width = 0 then (if 0 < idx then [idx] else [])
      else
        (let r = idx div width; c = idx mod width in
           (if 0 < r then [idx - width] else []) @
           (if int r < int height - 1 then [idx + width] else []) @
           (if 0 < c then [idx - 1] else []) @
           (if int c < int width - 1 then [idx + 1] else [])))"

definition areAdjacent :: "nat \<Rightarrow> nat \<Rightarrow> nat \<Rightarrow> bool" where
  "areAdjacent idx1 idx2 width =
     (if width = 0 then False
      else
        (let r1 = int (idx1 div width); c1 = int (idx1 mod width);
             r2 = int (idx2 div width); c2 = int (idx2 mod width)
         in \<bar>r1 - r2\<bar> + \<bar>c1 - c2\<bar> = 1))"

section \<open>Level data (types)\<close>

text \<open>
  \<open>Path = { colorId, path }\<close>. An \<open>Anchor\<close> is \<open>{ colorId, type: 'endpoint' }\<close>; its
  \<open>type\<close> has one value only, so the anchor table \<open>Record<number, Anchor>\<close> is the list of
  its entries \<open>(cell index, colorId)\<close> in the order \<open>Object.entries\<close> yields them
  (ascending cell index for the integer keys of a JavaScript object).
  \<open>solvedPaths\<close> is optional in the source.
\<close>

record Path =
  colorId :: nat
  path :: "nat list"

record LevelData =
  width :: nat
  height :: nat
  anchors :: "(nat \<times> nat) list"
  difficulty :: nat
  solvedPaths :: "Path list option"

section \<open>The validator (lib/level-validator.ts)\<close>

datatype validation_error =
    NoSolvedPaths
  | NotTwoAnchors nat
  | NoValidPath nat
  | AnchorsNotAtEndpoints nat
  | SameStartEnd nat
  | AnchorInMiddle nat
  | PathsOverlap nat
  | GridNotFilled nat nat
  | BranchingAtEndpoint nat
  | BranchingAtCell nat nat
  | UTurn nat nat

datatype validation = Valid | Invalid validation_error

text \<open>
  \<open>colorAnchors[c].push(idx)\<close> on a \<open>Record<number, number[]>\<close>: the table is kept in
  ascending key order, which is the order \<open>Object.entries(colorAnchors)\<close> iterates in.
\<close>

fun pushAnchor :: "(nat \<times> nat list) list \<Rightarrow> nat \<Rightarrow> nat \<Rightarrow> (nat \<times> nat list) list" where
  "pushAnchor [] c idx = [(c, [idx])]"
| "pushAnchor ((k, v) # m) c idx =
     (if c = k then (k, v @ [idx]) # m
      else if c < k then (c, [idx]) # (k, v) # m
      else (k, v) # pushAnchor m c idx)"

definition groupAnchors :: "(nat \<times> nat) list \<Rightarrow> (nat \<times> nat list) list" where
  "groupAnchors as = foldl (\<lambda>m (idx, c). pushAnchor m c idx) [] as"

text \<open>A loop whose body returns from the function at the first violation.\<close>

fun firstError :: "('a \<Rightarrow> validation_error option) \<Rightarrow> 'a list \<Rightarrow> validation_error option" where
  "firstError f [] = None"
| "firstError f (x # xs) = (case f x of Some e \<Rightarrow> Some e | None \<Rightarrow> firstError f xs)"

text \<open>Rules 1 and 3: the body of the loop over \<open>Object.entries(colorAnchors)\<close>.\<close>

definition checkColor :: "Path list \<Rightarrow> nat \<times> nat list \<Rightarrow> validation_error option" where
  "checkColor sps e =
     (case e of (c, anchorIndices) \<Rightarrow>
        if length anchorIndices \<noteq> 2 then Some (NotTwoAnchors c)
        else
          (case find (\<lambda>p. colorId p = c) sps of
             None \<Rightarrow> Some (NoValidPath c)
           | Some p \<Rightarrow>
               if length (path p) < 2 then Some (NoValidPath c)
               else
                 (let pathStart = hd (path p); pathEnd = last (path p) in
                    if pathStart \<notin> set anchorIndices \<or> pathEnd \<notin> set anchorIndices
                    then Some (AnchorsNotAtEndpoints c)
                    else if pathStart = pathEnd then Some (SameStartEnd c)
                    else if \<exists>x \<in> set (butlast (tl (path p))). x \<in> set anchorIndices
                    then Some (AnchorInMiddle c)
                    else None)))"

text \<open>
  Rule 2: the nested loops visit the cells of all paths in order and stop at the first
  cell already in \<open>cellToColor\<close>.
\<close>

fun findOverlap :: "nat list \<Rightarrow> nat list \<Rightarrow> nat option" where
  "findOverlap seen [] = None"
| "findOverlap seen (c # cs) = (if c \<in> set seen then Some c else findOverlap (c # seen) cs)"

definition allCells :: "Path list \<Rightarrow> nat list" where
  "allCells sps = concat (map path sps)"

text \<open>Rule 1 (non-branching): the body of the loop over the positions of one path.\<close>

definition pathNeighbors :: "nat \<Rightarrow> nat \<Rightarrow> nat list \<Rightarrow> nat \<Rightarrow> nat list" where
  "pathNeighbors w h p cell = filter (\<lambda>n. n \<in> set p) (getNeighbors cell w h)"

definition checkBranchingAt :: "nat \<Rightarrow> nat \<Rightarrow> Path \<Rightarrow> nat \<Rightarrow> validation_error option" where
  "checkBranchingAt w h P i =
     (let cell = path P ! i; k = length (pathNeighbors w h (path P) cell) in
        if i = 0 \<or> i = length (path P) - 1
        then (if k \<noteq> 1 then Some (BranchingAtEndpoint (colorId P)) else None)
        else (if k \<noteq> 2 then Some (BranchingAtCell (colorId P) cell) else None))"

definition checkBranching :: "nat \<Rightarrow> nat \<Rightarrow> Path \<Rightarrow> validation_error option" where
  "checkBranching w h P = firstError (checkBranchingAt w h P) [0..<length (path P)]"

text \<open>Rule 5: immediate reversals, for \<open>i\<close> from \<open>1\<close> to \<open>length - 2\<close>.\<close>

definition checkUTurn :: "Path \<Rightarrow> validation_error option" where
  "checkUTurn P =
     firstError
       (\<lambda>i. if path P ! (i - 1) = path P ! (i + 1) then Some (UTurn (colorId P) (path P ! i))
            else None)
       [1..<length (path P) - 1]"

definition validateNumberlinkRules :: "LevelData \<Rightarrow> validation" where
  "validateNumberlinkRules levelData =
     (let size = width levelData * height levelData in
      case solvedPaths levelData of
        None \<Rightarrow> Invalid NoSolvedPaths
      | Some sps \<Rightarrow>
          if sps = [] then Invalid NoSolvedPaths
          else
            (case firstError (checkColor sps) (groupAnchors (anchors levelData)) of
               Some e \<Rightarrow> Invalid e
             | None \<Rightarrow>
                 (case findOverlap [] (allCells sps) of
                    Some cell \<Rightarrow> Invalid (PathsOverlap cell)
                  | None \<Rightarrow>
                      (let filled = length (remdups (allCells sps)) in
                         if filled \<noteq> size then Invalid (GridNotFilled filled size)
                         else
                           (case firstError
                                   (checkBranching (width levelData) (height levelData)) sps of
                              Some e \<Rightarrow> Invalid e
                            | None \<Rightarrow>
                                (case firstError checkUTurn sps of
                                   Some e \<Rightarrow> Invalid e
                                 | None \<Rightarrow> Valid))))))"

section \<open>The uniqueness-seeking retry loop (utils/level-generation-utils.ts)\<close>

text \<open>
  An exception is a value. \<open>generateLevelHash\<close> (lib/level-compression.ts) and the
  generator that the loop calls are parameters of the model:
  \<^item> \<open>gen attempt\<close> is the outcome of the calls \<open>seedGenerator(attempt)\<close> and
    \<open>generateLevel(width, height, minC, maxC, palette, levelSeed)\<close> in iteration
    \<open>attempt\<close>: an exception, or the \<open>level\<close> field of the result (which the loop tests
    for null). The loop makes one such call per iteration, so this also covers a default
    \<open>seedGenerator\<close> that draws from \<open>Math.random\<close> and a generator stubbed by call count.
  \<^item> \<open>generateLevelHash level\<close> is an exception or a string; the empty string is falsy.
  The set \<open>existingHashes\<close> is threaded through the loop and returned with the result.
\<close>

datatype js_error = TypeError | Thrown

record GenerateUniqueLevelResult =
  level :: "LevelData option"
  hash :: "string option"
  isUnique :: bool
  attempts :: nat

text \<open>
  The body of the \<open>try\<close> block: \<open>Some r\<close> when it returns \<open>r\<close> from the function, \<open>None\<close>
  when the iteration ends by \<open>continue\<close>, by the \<open>catch\<close> or by falling through.
\<close>

definition attemptBody ::
  "(nat \<Rightarrow> js_error + LevelData option) \<Rightarrow> (LevelData \<Rightarrow> js_error + string) \<Rightarrow>
   string set \<Rightarrow> nat \<Rightarrow> GenerateUniqueLevelResult option" where
  "attemptBody gen generateLevelHash existingHashes attempt =
     (case gen attempt of
        Inl err \<Rightarrow> None
      | Inr None \<Rightarrow> None
      | Inr (Some lvl) \<Rightarrow>
          if validateNumberlinkRules lvl \<noteq> Valid then None
          else
            (case generateLevelHash lvl of
               Inl err \<Rightarrow> None
             | Inr h \<Rightarrow>
                 if h \<noteq> [] \<and> h \<notin> existingHashes
                 then Some \<lparr>level = Some lvl, hash = Some h, isUnique = True,
                            attempts = attempt + 1\<rparr>
                 else None))"

function attemptLoop ::
  "(nat \<Rightarrow> js_error + LevelData option) \<Rightarrow> (LevelData \<Rightarrow> js_error + string) \<Rightarrow>
   string set \<Rightarrow> nat \<Rightarrow> nat \<Rightarrow> GenerateUniqueLevelResult \<times> string set" where
  "attemptLoop gen generateLevelHash existingHashes maxAttempts attempt =
     (if attempt < maxAttempts then
        (case attemptBody gen generateLevelHash existingHashes attempt of
           Some r \<Rightarrow> (r, existingHashes)
         | None \<Rightarrow> attemptLoop gen generateLevelHash existingHashes maxAttempts (attempt + 1))
      else (\<lparr>level = None, hash = None, isUnique = False, attempts = maxAttempts\<rparr>,
            existingHashes))"
  by pat_completeness auto
termination
  by (relation "measure (\<lambda>(gen, hf, ex, maxAttempts, attempt). maxAttempts - attempt)") auto

text \<open>The destructuring default \<open>maxAttempts = 200\<close>.\<close>

definition attemptBound :: "nat option \<Rightarrow> nat" where
  "attemptBound maxAttempts = (case maxAttempts of None \<Rightarrow> 200 | Some m \<Rightarrow> m)"

definition generateUniqueLevelSync ::
  "(nat \<Rightarrow> js_error + LevelData option) \<Rightarrow> (LevelData \<Rightarrow> js_error + string) \<Rightarrow>
   string set \<Rightarrow> nat option \<Rightarrow> GenerateUniqueLevelResult \<times> string set" where
  "generateUniqueLevelSync gen generateLevelHash existingHashes maxAttempts =
     attemptLoop gen generateLevelHash existingHashes (attemptBound maxAttempts) 0"

text \<open>
  An iteration accepts its candidate when the candidate is a level that passes the
  validator and has a non-empty hash outside \<open>existingHashes\<close>.
\<close>

definition accepts ::
  "(nat \<Rightarrow> js_error + LevelData option) \<Rightarrow> (LevelData \<Rightarrow> js_error + string) \<Rightarrow>
   string set \<Rightarrow> nat \<Rightarrow> bool" where
  "accepts gen generateLevelHash existingHashes attempt =
     (attemptBody gen generateLevelHash existingHashes attempt \<noteq> None)"

section \<open>Numbers (IEEE 754 binary64)\<close>

text \<open>
  A JavaScript number is a double. A finite double is a rational number, and a product or
  a sum of two doubles evaluates to the double nearest to the exact result (round to
  nearest, ties to even). The numbers of the generator are far from the overflow
  threshold \<open>2\<^sup>1\<^sup>0\<^sup>2\<^sup>4\<close>, so \<open>Infinity\<close> is not modelled. Integers of magnitude up to
  \<open>2\<^sup>5\<^sup>3\<close> are doubles, and so are the counts, lengths and indices of the program.
\<close>

text \<open>The number of binary digits of a positive integer.\<close>

function bitLength :: "int \<Rightarrow> int" where
  "bitLength a = (if a \<le> 0 then 0 else 1 + bitLength (a div 2))"
  by pat_completeness auto
termination
  by (relation "measure nat") auto

declare bitLength.simps [simp del]

text \<open>\<open>\<lfloor>log\<^sub>2 x\<rfloor>\<close> for a positive rational \<open>x\<close>.\<close>

definition exponentOf :: "rat \<Rightarrow> int" where
  "exponentOf x =
     (case quotient_of x of (a, b) \<Rightarrow>
        let d = bitLength a - bitLength b in
          if 2 powi d \<le> x then d else d - 1)"

text \<open>The nearest integer, the even one of two that are equally near.\<close>

definition roundHalfEven :: "rat \<Rightarrow> int" where
  "roundHalfEven q =
     (let f = \<lfloor>q\<rfloor>; d = q - of_int f in
        if d < 1 / 2 then f else if 1 / 2 < d then f + 1 else if even f then f else f + 1)"

text \<open>
  The distance between neighbouring doubles around a positive \<open>x\<close>: 53 significant bits
  for normal numbers, \<open>2\<^sup>-\<^sup>1\<^sup>0\<^sup>7\<^sup>4\<close> for subnormal ones.
\<close>

definition ulp :: "rat \<Rightarrow> rat" where
  "ulp x = 2 powi (max (exponentOf x - 52) (- 1074))"

text \<open>The double nearest to \<open>x\<close>.\<close>

definition roundDouble :: "rat \<Rightarrow> rat" where
  "roundDouble x =
     (if x = 0 then 0
      else if 0 < x then of_int (roundHalfEven (x / ulp x)) * ulp x
      else - (of_int (roundHalfEven (- x / ulp (- x))) * ulp (- x)))"

lemma bitLength_int_bounds:
  "0 < a \<Longrightarrow> 1 \<le> bitLength a \<and> 2 ^ nat (bitLength a - 1) \<le> a \<and> a < 2 ^ nat (bitLength a)"
proof (induction a rule: bitLength.induct)
  case (1 a)
  have bl: "bitLength a = 1 + bitLength (a div 2)" using "1.prems" by (subst bitLength.simps) simp
  show ?case
  proof (cases "a = 1")
    case True
    then have "bitLength (a div 2) = 0" by (subst bitLength.simps) simp
    with bl True show ?thesis by simp
  next
    case False
    with "1.prems" have h: "0 < a div 2" by simp
    from "1.prems" have "\<not> a \<le> 0" by simp
    from "1.IH"[OF this h] have l: "1 \<le> bitLength (a div 2)"
      and lo: "2 ^ nat (bitLength (a div 2) - 1) \<le> a div 2"
      and hi: "a div 2 < 2 ^ nat (bitLength (a div 2))" by simp_all
    let ?l = "bitLength (a div 2)"
    have e1: "nat (1 + ?l - 1) = Suc (nat (?l - 1))" using l by simp
    have e2: "nat (1 + ?l) = Suc (nat ?l)" using l by simp
    have "2 * 2 ^ nat (?l - 1) \<le> 2 * (a div 2)" using lo by simp
    also have "\<dots> \<le> a" by simp
    finally have A: "2 ^ nat (bitLength a - 1) \<le> a" unfolding bl e1 by simp
    have "a div 2 + 1 \<le> 2 ^ nat ?l" using hi by simp
    then have "2 * (a div 2) + 2 \<le> 2 * 2 ^ nat ?l" by simp
    moreover have "a < 2 * (a div 2) + 2" by simp
    ultimately have B: "a < 2 ^ nat (bitLength a)" unfolding bl e2 by simp
    from A B l bl show ?thesis by simp
  qed
qed

lemma bitLength_bounds:
  assumes "0 < a"
  shows "2 powi (bitLength a - 1) \<le> (of_int a :: rat)" "(of_int a :: rat) < 2 powi bitLength a"
proof -
  from bitLength_int_bounds[OF assms] have l: "1 \<le> bitLength a"
    and lo: "2 ^ nat (bitLength a - 1) \<le> a" and hi: "a < 2 ^ nat (bitLength a)" by simp_all
  from lo have "(of_int (2 ^ nat (bitLength a - 1)) :: rat) \<le> of_int a" by (simp only: of_int_le_iff)
  then show "2 powi (bitLength a - 1) \<le> (of_int a :: rat)"
    using l by (simp add: power_int_nonneg_exp)
  from hi have "(of_int a :: rat) < of_int (2 ^ nat (bitLength a))" by (simp only: of_int_less_iff)
  then show "(of_int a :: rat) < 2 powi bitLength a"
    using l by (simp add: power_int_nonneg_exp)
qed

lemma exponentOf_spec:
  assumes "0 < x"
  shows "2 powi exponentOf x \<le> x" "x < 2 powi (exponentOf x + 1)"
proof -
  obtain a b where q: "quotient_of x = (a, b)" by (cases "quotient_of x")
  from quotient_of_denom_pos[OF q] have b: "0 < b" .
  from quotient_of_div[OF q] have x: "x = of_int a / of_int b" .
  with assms b have a: "0 < a" by (simp add: zero_less_divide_iff)
  let ?d = "bitLength a - bitLength b"
  note A = bitLength_bounds[OF a] and B = bitLength_bounds[OF b]
  have p: "\<And>n. (0::rat) < 2 powi n" by (simp add: zero_less_power_int)
  have "x < 2 powi bitLength a / 2 powi (bitLength b - 1)"
    unfolding x using A(2) B(1) a b p by (intro frac_less) simp_all
  also have "\<dots> = 2 powi (?d + 1)"
    by (simp add: power_int_diff[symmetric] algebra_simps)
  finally have hi: "x < 2 powi (?d + 1)" .
  have "2 powi (bitLength a - 1) / 2 powi bitLength b \<le> x"
    unfolding x using A(1) B(2) a b p by (intro frac_le) (simp_all add: less_imp_le)
  moreover have "2 powi (bitLength a - 1) / 2 powi bitLength b = (2::rat) powi (?d - 1)"
    by (simp add: power_int_diff[symmetric] algebra_simps)
  ultimately have lo: "2 powi (?d - 1) \<le> x" by simp
  have e: "exponentOf x = (if 2 powi ?d \<le> x then ?d else ?d - 1)"
    by (simp add: exponentOf_def q Let_def)
  show "2 powi exponentOf x \<le> x" using lo e by auto
  show "x < 2 powi (exponentOf x + 1)" using hi e by (auto simp: not_le)
qed

lemma exponentOf_unique:
  assumes "0 < x" "2 powi e \<le> x" "x < 2 powi (e + 1)"
  shows "exponentOf x = e"
proof (rule ccontr)
  assume ne: "exponentOf x \<noteq> e"
  note s = exponentOf_spec[OF assms(1)]
  show False
  proof (cases "exponentOf x < e")
    case True
    then have "exponentOf x + 1 \<le> e" by simp
    then have "(2::rat) powi (exponentOf x + 1) \<le> 2 powi e" by (intro power_int_increasing) simp_all
    with s(2) assms(2) show False by simp
  next
    case False
    with ne have "e + 1 \<le> exponentOf x" by simp
    then have "(2::rat) powi (e + 1) \<le> 2 powi exponentOf x" by (intro power_int_increasing) simp_all
    with s(1) assms(3) show False by simp
  qed
qed

lemma exponentOf_less:
  assumes "0 < x" "x < 2 powi n"
  shows "exponentOf x < n"
proof (rule ccontr)
  assume "\<not> exponentOf x < n"
  then have "n \<le> exponentOf x" by simp
  then have "(2::rat) powi n \<le> 2 powi exponentOf x" by (intro power_int_increasing) simp_all
  with exponentOf_spec(1)[OF assms(1)] assms(2) show False by simp
qed

lemma roundHalfEven_floor: "\<lfloor>q\<rfloor> \<le> roundHalfEven q"
  by (simp add: roundHalfEven_def Let_def)

lemma roundHalfEven_ceiling: "roundHalfEven q \<le> \<lceil>q\<rceil>"
proof -
  have "roundHalfEven q = \<lfloor>q\<rfloor> \<or> (roundHalfEven q = \<lfloor>q\<rfloor> + 1 \<and> q \<noteq> of_int \<lfloor>q\<rfloor>)"
    by (auto simp: roundHalfEven_def Let_def)
  then show ?thesis by (auto simp: ceiling_altdef)
qed

lemma roundHalfEven_upper: "of_int (roundHalfEven q) \<le> q + 1 / 2"
proof -
  have f: "of_int \<lfloor>q\<rfloor> \<le> q" by simp
  show ?thesis
  proof (cases "q - of_int \<lfloor>q\<rfloor> < 1 / 2")
    case True
    then have "roundHalfEven q = \<lfloor>q\<rfloor>" by (simp add: roundHalfEven_def Let_def)
    moreover have "q \<le> q + 1 / 2" by simp
    ultimately show ?thesis using f by (simp only: order_trans)
  next
    case False
    then have h: "1 / 2 \<le> q - of_int \<lfloor>q\<rfloor>" by simp
    have "roundHalfEven q \<le> \<lfloor>q\<rfloor> + 1" by (simp add: roundHalfEven_def Let_def)
    then have "(of_int (roundHalfEven q) :: rat) \<le> of_int (\<lfloor>q\<rfloor> + 1)"
      by (simp only: of_int_le_iff)
    with h show ?thesis by simp
  qed
qed

lemma roundHalfEven_ge: "of_int k \<le> q \<Longrightarrow> k \<le> roundHalfEven q"
proof -
  assume "of_int k \<le> q"
  then have "k \<le> \<lfloor>q\<rfloor>" by (simp add: le_floor_iff)
  with roundHalfEven_floor[of q] show ?thesis by simp
qed

lemma roundHalfEven_le: "q \<le> of_int k \<Longrightarrow> roundHalfEven q \<le> k"
proof -
  assume "q \<le> of_int k"
  then have "\<lceil>q\<rceil> \<le> k" by (simp add: ceiling_le_iff)
  with roundHalfEven_ceiling[of q] show ?thesis by simp
qed

lemma roundHalfEven_of_int: "roundHalfEven (of_int k) = k"
  by (simp add: roundHalfEven_def)

lemma ulp_pos: "0 < ulp x"
  by (simp add: ulp_def zero_less_power_int)

lemma roundDouble_pos:
  "0 < x \<Longrightarrow> roundDouble x = of_int (roundHalfEven (x / ulp x)) * ulp x"
  by (simp add: roundDouble_def)

lemma roundDouble_neg: "roundDouble (- x) = - roundDouble x"
  by (simp add: roundDouble_def)

lemma roundDouble_nonneg: "0 \<le> x \<Longrightarrow> 0 \<le> roundDouble x"
proof (cases "x = 0")
  case True
  then show ?thesis by (simp add: roundDouble_def)
next
  case False
  assume "0 \<le> x"
  with False have x: "0 < x" by simp
  then have "0 \<le> x / ulp x" using ulp_pos[of x] by simp
  then have "0 \<le> roundHalfEven (x / ulp x)"
    using roundHalfEven_ge[of 0 "x / ulp x"] by simp
  then show ?thesis using ulp_pos[of x] by (simp add: roundDouble_pos[OF x])
qed

text \<open>The rounding error is at most half a unit in the last place.\<close>

lemma roundDouble_upper:
  assumes "0 < x"
  shows "roundDouble x \<le> x + ulp x / 2"
proof -
  have "of_int (roundHalfEven (x / ulp x)) * ulp x \<le> (x / ulp x + 1 / 2) * ulp x"
    using roundHalfEven_upper[of "x / ulp x"] ulp_pos[of x] by (simp only: mult_le_cancel_right_pos)
  also have "\<dots> = x + ulp x / 2" using ulp_pos[of x] by (simp add: algebra_simps)
  finally show ?thesis by (simp add: roundDouble_pos[OF assms])
qed

lemma ulp_le:
  assumes "0 < x"
  shows "ulp x \<le> max (x / 2 ^ 52) (2 powi (- 1074))"
proof (cases "- 1074 \<le> exponentOf x - 52")
  case True
  then have "max (exponentOf x - 52) (- 1074) = exponentOf x - 52" by (rule max_absorb1)
  then have "ulp x = 2 powi (exponentOf x - 52)" by (simp only: ulp_def)
  also have "\<dots> = 2 powi exponentOf x / 2 ^ 52" by (simp add: power_int_diff)
  also have "\<dots> \<le> x / 2 ^ 52" using exponentOf_spec(1)[OF assms] by (simp add: divide_right_mono)
  finally show ?thesis by simp
next
  case False
  then have "max (exponentOf x - 52) (- 1074) = - 1074" by (intro max_absorb2) simp
  then have "ulp x = 2 powi (- 1074)" by (simp only: ulp_def)
  then show ?thesis by (simp only: max.cobounded2)
qed

text \<open>A double below 1 is at most \<open>1 - 2\<^sup>-\<^sup>5\<^sup>3\<close>.\<close>

lemma double_below_one:
  assumes d: "roundDouble r = r" and r: "0 \<le> r" "r < 1"
  shows "r \<le> 1 - 1 / 2 ^ 53"
proof (cases "r < 1 / 2")
  case True
  then show ?thesis by simp
next
  case False
  then have h: "1 / 2 \<le> r" by simp
  then have pos: "0 < r" by simp
  have "exponentOf r = - 1" using pos h r(2) by (intro exponentOf_unique) simp_all
  then have u: "ulp r = 1 / 2 ^ 53" by (simp add: ulp_def power_int_minus_divide)
  let ?k = "roundHalfEven (r / ulp r)"
  from d have k: "r = of_int ?k / 2 ^ 53" by (simp add: roundDouble_pos[OF pos] u)
  with r(2) have "(of_int ?k :: rat) < 2 ^ 53" by (simp add: divide_less_eq)
  then have "(of_int ?k :: rat) < of_int (2 ^ 53)" by simp
  then have "?k < 2 ^ 53" by (simp only: of_int_less_iff)
  then have "?k \<le> 2 ^ 53 - 1" by simp
  then have "(of_int ?k :: rat) \<le> of_int (2 ^ 53 - 1)" by (simp only: of_int_le_iff)
  then have "(of_int ?k :: rat) / 2 ^ 53 \<le> (2 ^ 53 - 1) / 2 ^ 53" by (simp add: divide_right_mono)
  with k show ?thesis by (simp add: diff_divide_distrib)
qed

text \<open>\<open>random() * n\<close> stays below \<open>n\<close> after rounding.\<close>

lemma roundDouble_scaled_less:
  assumes d: "roundDouble r = r" and r: "0 \<le> r" "r < 1" and n: "1 \<le> n"
  shows "roundDouble (r * n) < n"
proof (cases "r = 0")
  case True
  with n show ?thesis by (simp add: roundDouble_def)
next
  case False
  with r have pos: "0 < r * n" using n by simp
  have "0 \<le> n" using n by simp
  from mult_right_mono[OF double_below_one[OF d r] this]
  have le: "r * n \<le> (1 - 1 / 2 ^ 53) * n" .
  define t :: rat where "t = 2 powi (- 1074)"
  have "t \<le> 2 powi (- 53)" unfolding t_def by (intro power_int_increasing) simp_all
  then have t: "t \<le> 1 / 2 ^ 53" by (simp add: power_int_minus_divide)
  have "ulp (r * n) \<le> max (r * n / 2 ^ 52) t"
    using ulp_le[OF pos] by (simp only: t_def)
  then have "ulp (r * n) / 2 \<le> max (r * n / 2 ^ 52) t / 2"
    by (simp only: divide_right_mono zero_le_numeral)
  with roundDouble_upper[OF pos]
  have up: "roundDouble (r * n) \<le> r * n + max (r * n / 2 ^ 52) t / 2" by simp
  have A: "r * n + (r * n / 2 ^ 52) / 2 < n"
  proof -
    have "r * n + (r * n / 2 ^ 52) / 2 = r * n * (1 + 1 / 2 ^ 53)" by (simp add: algebra_simps)
    also have "\<dots> \<le> (1 - 1 / 2 ^ 53) * n * (1 + 1 / 2 ^ 53)"
      by (rule mult_right_mono[OF le]) simp
    also have "\<dots> = n * ((1 - 1 / 2 ^ 53) * (1 + 1 / 2 ^ 53))" by (simp add: algebra_simps)
    also have "\<dots> < n * 1" using n by (intro mult_strict_left_mono) simp_all
    finally show ?thesis by simp
  qed
  have B: "r * n + t / 2 < n"
  proof -
    have "0 < t" unfolding t_def by (simp only: zero_less_power_int zero_less_numeral)
    with t have "t / 2 < 1 / 2 ^ 53" by simp
    also have "\<dots> \<le> n / 2 ^ 53" using n by (simp add: divide_right_mono)
    finally have "r * n + t / 2 < (1 - 1 / 2 ^ 53) * n + n / 2 ^ 53"
      using le by simp
    also have "\<dots> = n" by (simp add: algebra_simps)
    finally show ?thesis .
  qed
  show ?thesis
  proof (cases "r * n / 2 ^ 52 \<le> t")
    case True
    then have "max (r * n / 2 ^ 52) t = t" by (rule max_absorb2)
    with up B show ?thesis by simp
  next
    case False
    then have "max (r * n / 2 ^ 52) t = r * n / 2 ^ 52" by (intro max_absorb1) simp
    with up A show ?thesis by simp
  qed
qed
section \<open>The random source (lib/prng.ts, \<open>Math.random\<close>)\<close>

text \<open>
  \<open>random()\<close> returns a double in \<open>[0, 1)\<close>. The products and sums the generator forms
  from a draw are rounded as doubles are. A random source is the sequence of its draws,
  and the generator threads the position of the next draw through every call of
  \<open>random()\<close>. \<open>toUnit\<close> makes a draw of a rational that is a double in \<open>[0, 1)\<close>.
\<close>

typedef unit_float = "{q :: rat. 0 \<le> q \<and> q < 1 \<and> roundDouble q = q}"
  by (rule exI[of _ 0]) (simp add: roundDouble_def)

setup_lifting type_definition_unit_float

lift_definition floatValue :: "unit_float \<Rightarrow> rat" is "\<lambda>q. q" .

lift_definition toUnit :: "rat \<Rightarrow> unit_float" is
  "\<lambda>q. if 0 \<le> q \<and> q < 1 \<and> roundDouble q = q then q else 0"
  by (simp add: roundDouble_def)

type_synonym rng = "nat \<Rightarrow> unit_float"

text \<open>\<open>Math.floor(random() * n)\<close> for a length or count \<open>n\<close>.\<close>

definition randomIndex :: "unit_float \<Rightarrow> nat \<Rightarrow> nat" where
  "randomIndex r n = nat \<lfloor>roundDouble (floatValue r * of_nat n)\<rfloor>"

lemma floatValue_range: "0 \<le> floatValue r \<and> floatValue r < 1"
  by transfer simp

lemma floatValue_double: "roundDouble (floatValue r) = floatValue r"
  by transfer simp

lemma randomIndex_less: "0 < n \<Longrightarrow> randomIndex r n < n"
proof -
  assume n: "0 < n"
  then have "(1::rat) \<le> of_nat n" by simp
  with floatValue_range[of r] floatValue_double[of r]
  have "roundDouble (floatValue r * of_nat n) < of_nat n"
    by (intro roundDouble_scaled_less) simp_all
  then have "roundDouble (floatValue r * of_nat n) < of_int (int n)" by simp
  then have "\<lfloor>roundDouble (floatValue r * of_nat n)\<rfloor> < int n"
    by (simp only: floor_less_iff)
  moreover have "0 \<le> floatValue r * of_nat n"
    using floatValue_range[of r] by simp
  then have "0 \<le> \<lfloor>roundDouble (floatValue r * of_nat n)\<rfloor>"
    using roundDouble_nonneg by simp
  ultimately show ?thesis by (simp add: randomIndex_def nat_less_iff)
qed

text \<open>
  \<open>Math.min(paletteLen, Math.floor(random() * (maxC - minC + 1) + minC))\<close>, the target
  number of colours.
\<close>

definition pickTargetColors :: "nat \<Rightarrow> int \<Rightarrow> int \<Rightarrow> unit_float \<Rightarrow> int" where
  "pickTargetColors paletteLen minC maxC r =
     min (int paletteLen)
       \<lfloor>roundDouble (roundDouble (floatValue r * of_int (maxC - minC + 1)) + of_int minC)\<rfloor>"

text \<open>
  The Fisher-Yates loop \<open>for (i = length - 1; i > 0; i--)\<close> with
  \<open>j = Math.floor(random() * (i + 1))\<close> and the swap of positions \<open>i\<close> and \<open>j\<close>;
  the first argument is the current \<open>i\<close>.
\<close>

fun shuffle :: "rng \<Rightarrow> nat \<Rightarrow> nat list \<Rightarrow> nat \<Rightarrow> nat list \<times> nat" where
  "shuffle rs 0 xs p = (xs, p)"
| "shuffle rs (Suc i) xs p =
     (let j = randomIndex (rs p) (Suc i + 1) in
        shuffle rs i (xs[Suc i := xs ! j, j := xs ! Suc i]) (p + 1))"

section \<open>The primary generator (lib/level-generator.ts)\<close>

text \<open>
  \<open>grid\<close> is an \<open>Int32Array\<close> of \<open>size\<close> entries, \<open>-1\<close> for an empty cell. A read outside
  the array yields \<open>undefined\<close>, which is neither \<open>-1\<close> nor a colour; a write outside it is
  ignored, as \<open>list_update\<close> does.
\<close>

definition gridAt :: "int list \<Rightarrow> nat \<Rightarrow> int option" where
  "gridAt grid n = (if n < length grid then Some (grid ! n) else None)"

text \<open>
  An object with integer keys, as a list of entries in ascending key order:
  \<open>anchors[k] = v\<close>.
\<close>

fun anchorsPut :: "(nat \<times> nat) list \<Rightarrow> nat \<Rightarrow> nat \<Rightarrow> (nat \<times> nat) list" where
  "anchorsPut [] k v = [(k, v)]"
| "anchorsPut ((k', v') # m) k v =
     (if k = k' then (k, v) # m
      else if k < k' then (k, v) # (k', v') # m
      else (k', v') # anchorsPut m k v)"

definition validateAnchors :: "(nat \<times> nat) list \<Rightarrow> nat \<Rightarrow> bool" where
  "validateAnchors as w =
     list_all
       (\<lambda>(c, anchorIndices).
          length anchorIndices = 2 \<and> \<not> areAdjacent (anchorIndices ! 0) (anchorIndices ! 1) w)
       (groupAnchors as)"

text \<open>
  The sampling loop that selects the start cell: \<open>k\<close> draws remain, \<open>startIdx\<close> is \<open>None\<close>
  for \<open>-1\<close>.
\<close>

fun pickStart ::
  "rng \<Rightarrow> nat \<Rightarrow> nat \<Rightarrow> int list \<Rightarrow> nat list \<Rightarrow> nat \<Rightarrow> nat \<Rightarrow> nat option \<times> nat \<Rightarrow>
   (nat option \<times> nat) \<times> nat" where
  "pickStart rs w h grid emptyIndices 0 p best = (best, p)"
| "pickStart rs w h grid emptyIndices (Suc k) p best =
     (let r = randomIndex (rs p) (length emptyIndices);
          idx = emptyIndices ! r;
          freeNeighbors = length (filter (\<lambda>n. gridAt grid n = Some (- 1)) (getNeighbors idx w h))
      in pickStart rs w h grid emptyIndices k (p + 1)
           (if freeNeighbors < snd best then (Some idx, freeNeighbors) else best))"

text \<open>The filter predicate of \<open>validMoves\<close>.\<close>

definition validMove :: "nat \<Rightarrow> nat \<Rightarrow> int list \<Rightarrow> nat \<Rightarrow> nat \<Rightarrow> nat \<Rightarrow> bool" where
  "validMove w h grid cid currCell next =
     (if gridAt grid next \<noteq> Some (- 1) then False
      else if \<exists>nn \<in> set (getNeighbors next w h). gridAt grid nn = Some (int cid) \<and> nn \<noteq> currCell
      then False
      else if w * h < 400 \<and>
              (\<exists>n \<in> set (getNeighbors currCell w h).
                  n \<noteq> next \<and> gridAt grid n = Some (- 1) \<and>
                  filter (\<lambda>nn. gridAt grid nn = Some (- 1) \<and> nn \<noteq> next) (getNeighbors n w h) = [])
      then False
      else True)"

lemma count_empty_update:
  "i < length xs \<Longrightarrow> xs ! i = a \<Longrightarrow> b \<noteq> a \<Longrightarrow>
     length (filter (\<lambda>v. v = a) (xs[i := b])) < length (filter (\<lambda>v. v = a) xs)"
proof (induction xs arbitrary: i)
  case Nil
  then show ?case by simp
next
  case (Cons x xs)
  show ?case
  proof (cases i)
    case 0
    with Cons.prems show ?thesis by simp
  next
    case (Suc j)
    with Cons.prems Cons.IH[of j] show ?thesis by auto
  qed
qed

lemma validMove_empty:
  "validMove w h grid cid currCell next \<Longrightarrow> next < length grid \<and> grid ! next = - 1"
  by (auto simp: validMove_def gridAt_def split: if_splits)

lemma growPath_decrease:
  assumes "validMoves = filter (validMove w h grid cid c) (getNeighbors c w h)"
    and "validMoves \<noteq> []"
  shows "length (filter (\<lambda>v. v = - 1)
                   (grid[validMoves ! randomIndex r (length validMoves) := int cid]))
           < length (filter (\<lambda>v. v = - 1) grid)"
proof -
  let ?nx = "validMoves ! randomIndex r (length validMoves)"
  from assms(2) have "randomIndex r (length validMoves) < length validMoves"
    by (simp add: randomIndex_less)
  then have "?nx \<in> set validMoves" by simp
  with assms(1) have "validMove w h grid cid c ?nx" by simp
  then have "?nx < length grid" "grid ! ?nx = - 1" using validMove_empty by blast+
  then show ?thesis by (intro count_empty_update) simp_all
qed

text \<open>
  The loop \<open>while (!pathStuck)\<close> on the state
  \<open>(grid, emptyCells, currentPath, filledCount, curr, position of the next draw)\<close>.
\<close>

function growPath ::
  "rng \<Rightarrow> nat \<Rightarrow> nat \<Rightarrow> nat \<Rightarrow> int list \<times> nat list \<times> nat list \<times> nat \<times> nat \<times> nat \<Rightarrow>
   int list \<times> nat list \<times> nat list \<times> nat \<times> nat \<times> nat" where
  "growPath rs w h cid (grid, emptyCells, currentPath, filledCount, currCell, p) =
     (let validMoves = filter (validMove w h grid cid currCell) (getNeighbors currCell w h) in
        if validMoves \<noteq> [] then
          (let next = validMoves ! randomIndex (rs p) (length validMoves) in
             growPath rs w h cid
               (grid[next := int cid], remove1 next emptyCells, currentPath @ [next],
                filledCount + 1, next, p + 1))
        else (grid, emptyCells, currentPath, filledCount, currCell, p))"
  by pat_completeness auto
termination
  by (relation "measure (\<lambda>(rs, w, h, cid, grid, rest). length (filter (\<lambda>v. v = - 1) grid))")
     (auto intro: growPath_decrease)

declare growPath.simps [simp del]

lemma growPath_filledCount:
  "growPath rs w h cid (g, e, cp, f, c, p) = (g', e', cp', f', c', p') \<Longrightarrow> f \<le> f'"
proof (induction rs w h cid "(g, e, cp, f, c, p)" arbitrary: g e cp f c p rule: growPath.induct)
  case (1 rs w h cid g e cp f c p)
  let ?vm = "filter (validMove w h g cid c) (getNeighbors c w h)"
  show ?case
  proof (cases "?vm = []")
    case True
    with "1.prems" show ?thesis by (subst (asm) growPath.simps) simp
  next
    case False
    let ?nx = "?vm ! randomIndex (rs p) (length ?vm)"
    from False "1.prems"
    have "growPath rs w h cid (g[?nx := int cid], remove1 ?nx e, cp @ [?nx], f + 1, ?nx, p + 1)
            = (g', e', cp', f', c', p')"
      by (subst (asm) growPath.simps) (simp add: Let_def)
    from "1.hyps"[OF refl False refl this] show ?thesis by simp
  qed
qed

text \<open>
  The variables of one attempt that outlive an iteration of the path loop: \<open>grid\<close>,
  \<open>emptyCells\<close>, \<open>filledCount\<close>, \<open>paths\<close>, \<open>stuck\<close>, and the position of the next draw.
\<close>

record attempt_state =
  sGrid :: "int list"
  sEmptyCells :: "nat list"
  sFilledCount :: nat
  sPaths :: "Path list"
  sStuck :: bool
  sPos :: nat

text \<open>
  One iteration of \<open>while (filledCount < size && emptyCells.size > 0 && paths.length <
  targetColors)\<close>. Both \<open>break\<close> statements set \<open>stuck\<close> first, so the state after the
  iteration has \<open>sStuck\<close> exactly when the loop was left by \<open>break\<close>.
\<close>

definition pathStep :: "rng \<Rightarrow> nat \<Rightarrow> nat \<Rightarrow> attempt_state \<Rightarrow> attempt_state" where
  "pathStep rs w h st =
     (let emptyIndices = sEmptyCells st;
          sampleSize = min (length emptyIndices) 15;
          (best, p1) = pickStart rs w h (sGrid st) emptyIndices sampleSize (sPos st) (None, 99);
          startIdx = (case fst best of None \<Rightarrow> emptyIndices ! 0 | Some i \<Rightarrow> i);
          cid = length (sPaths st);
          (grid2, empty2, currentPath, filled2, currCell, p2) =
             growPath rs w h cid
               ((sGrid st)[startIdx := int cid], remove1 startIdx (sEmptyCells st), [startIdx],
                sFilledCount st + 1, startIdx, p1)
      in
        if length currentPath < 3 then
          \<lparr>sGrid = grid2, sEmptyCells = empty2, sFilledCount = filled2, sPaths = sPaths st,
           sStuck = True, sPos = p2\<rparr>
        else if areAdjacent (currentPath ! 0) (currentPath ! (length currentPath - 1)) w then
          (let lastCell = currentPath ! (length currentPath - 1);
               validExtensions =
                 filter (\<lambda>nx. gridAt grid2 nx = Some (- 1) \<and> nx \<notin> set currentPath)
                   (getNeighbors lastCell w h)
           in
             if validExtensions \<noteq> [] then
               (let extension = validExtensions ! randomIndex (rs p2) (length validExtensions) in
                  \<lparr>sGrid = grid2[extension := int cid], sEmptyCells = remove1 extension empty2,
                   sFilledCount = filled2 + 1,
                   sPaths = sPaths st @ [\<lparr>colorId = cid, path = currentPath @ [extension]\<rparr>],
                   sStuck = False, sPos = p2 + 1\<rparr>)
             else
               \<lparr>sGrid = grid2, sEmptyCells = empty2, sFilledCount = filled2, sPaths = sPaths st,
                sStuck = True, sPos = p2\<rparr>)
        else
          \<lparr>sGrid = grid2, sEmptyCells = empty2, sFilledCount = filled2,
           sPaths = sPaths st @ [\<lparr>colorId = cid, path = currentPath\<rparr>],
           sStuck = False, sPos = p2\<rparr>)"

lemma pathStep_filledCount: "sFilledCount st < sFilledCount (pathStep rs w h st)"
  unfolding pathStep_def Let_def
  by (auto split: prod.splits dest!: growPath_filledCount)

function fillGrid :: "rng \<Rightarrow> nat \<Rightarrow> nat \<Rightarrow> int \<Rightarrow> attempt_state \<Rightarrow> attempt_state" where
  "fillGrid rs w h targetColors st =
     (if sFilledCount st < w * h \<and> sEmptyCells st \<noteq> [] \<and> int (length (sPaths st)) < targetColors
      then (let st' = pathStep rs w h st in
              if sStuck st' then st' else fillGrid rs w h targetColors st')
      else st)"
  by pat_completeness auto
termination
  by (relation "measure (\<lambda>(rs, w, h, targetColors, st). w * h - sFilledCount st)")
     (auto intro: diff_less_mono2 pathStep_filledCount)

declare fillGrid.simps [simp del]

text \<open>
  The colour assignment \<open>paths.forEach((p, i) => ...)\<close>: path \<open>i\<close> gets
  \<open>colorAssignments[i]\<close>, and its first and last cell are entered into \<open>anchors\<close>.
\<close>

definition recolor :: "nat list \<Rightarrow> Path list \<Rightarrow> Path list" where
  "recolor colorAssignments ps =
     map (\<lambda>(i, p). p\<lparr>colorId := colorAssignments ! i\<rparr>) (enumerate 0 ps)"

definition anchorsOf :: "Path list \<Rightarrow> (nat \<times> nat) list" where
  "anchorsOf ps =
     foldl (\<lambda>as p. anchorsPut (anchorsPut as (path p ! 0) (colorId p))
                        (path p ! (length (path p) - 1)) (colorId p))
       [] ps"

text \<open>
  The end of an attempt, after the path loop: \<open>Some level\<close> when the attempt returns it,
  \<open>None\<close> when the attempt loop goes on, and the position of the next draw.
\<close>

definition finishAttempt ::
  "rng \<Rightarrow> nat \<Rightarrow> nat \<Rightarrow> int \<Rightarrow> int \<Rightarrow> attempt_state \<Rightarrow> LevelData option \<times> nat" where
  "finishAttempt rs w h minC targetColors st =
     (if \<not> sStuck st \<and> sFilledCount st = w * h \<and> minC \<le> int (length (sPaths st)) then
        (let (colorAssignments, p1) =
               shuffle rs (nat targetColors - 1) [0..<nat targetColors] (sPos st)
         in
           if int (length (sPaths st)) \<noteq> targetColors then (None, p1)
           else
             (let ps = recolor colorAssignments (sPaths st);
                  as = anchorsOf ps
              in
                if validateAnchors as w
                then (Some \<lparr>width = w, height = h, anchors = as, difficulty = length ps,
                             solvedPaths = Some ps\<rparr>, p1)
                else (None, p1)))
      else (None, sPos st))"

definition initialState :: "nat \<Rightarrow> nat \<Rightarrow> attempt_state" where
  "initialState sz p =
     \<lparr>sGrid = replicate sz (- 1), sEmptyCells = [0..<sz], sFilledCount = 0, sPaths = [],
      sStuck = False, sPos = p\<rparr>"

definition runAttempt ::
  "rng \<Rightarrow> nat \<Rightarrow> nat \<Rightarrow> int \<Rightarrow> int \<Rightarrow> nat \<Rightarrow> LevelData option \<times> nat" where
  "runAttempt rs w h minC targetColors p =
     finishAttempt rs w h minC targetColors
       (fillGrid rs w h targetColors (initialState (w * h) p))"

text \<open>
  \<open>while (attempts < attemptsLimit)\<close>: the first numeric argument is the number of attempts
  left.
\<close>

fun attemptsLoop ::
  "rng \<Rightarrow> nat \<Rightarrow> nat \<Rightarrow> int \<Rightarrow> int \<Rightarrow> nat \<Rightarrow> nat \<Rightarrow> LevelData option \<times> nat" where
  "attemptsLoop rs w h minC targetColors 0 p = (None, p)"
| "attemptsLoop rs w h minC targetColors (Suc n) p =
     (case runAttempt rs w h minC targetColors p of
        (Some lvl, p') \<Rightarrow> (Some lvl, p')
      | (None, p') \<Rightarrow> attemptsLoop rs w h minC targetColors n p')"
section \<open>The fallback generator (lib/level-generator.ts)\<close>

text \<open>Phase 1: the test \<open>isPreferred\<close> of a neighbour \<open>n\<close> of \<open>current\<close>.\<close>

definition isPreferred :: "nat \<Rightarrow> nat \<Rightarrow> nat \<Rightarrow> nat \<Rightarrow> bool" where
  "isPreferred snakeDirection w current n =
     (let r = n div w; c = n mod w; currR = current div w; currC = current mod w in
        (snakeDirection = 0 \<and> currC < c) \<or> (snakeDirection = 1 \<and> currR < r) \<or>
        (snakeDirection = 2 \<and> c < currC) \<or> (snakeDirection = 3 \<and> r < currR))"

text \<open>
  The loop \<open>while (stack.length > 0 && region.length < targetSize)\<close> on the state
  \<open>(grid, visited, region, stack, snakeDirection, position of the next draw)\<close>. The stack
  grows at its end, as the array does; \<open>visited\<close> is a \<open>Set\<close>, kept as the list of its
  elements. The literal \<open>0.3\<close> is the double nearest to \<open>3/10\<close>.
\<close>

function expandRegion ::
  "rng \<Rightarrow> nat \<Rightarrow> nat \<Rightarrow> nat \<Rightarrow> nat \<Rightarrow> int list \<times> nat list \<times> nat list \<times> nat list \<times> nat \<times> nat \<Rightarrow>
   int list \<times> nat list \<times> nat list \<times> nat" where
  "expandRegion rs w h cid targetSize (grid, visited, region, stack, snakeDirection, p) =
     (if stack \<noteq> [] \<and> length region < targetSize then
        (let current = last stack; stack1 = butlast stack in
           if current \<in> set visited \<or> gridAt grid current \<noteq> Some (- 1)
           then expandRegion rs w h cid targetSize
                  (grid, visited, region, stack1, snakeDirection, p)
           else
             (let visited1 = visited @ [current];
                  region1 = region @ [current];
                  grid1 = grid[current := int cid];
                  candidates =
                    filter (\<lambda>n. n \<notin> set visited1 \<and> gridAt grid1 n = Some (- 1))
                      (getNeighbors current w h);
                  preferredNeighbors = filter (isPreferred snakeDirection w current) candidates;
                  otherNeighbors =
                    filter (\<lambda>n. \<not> isPreferred snakeDirection w current n) candidates;
                  shuffled =
                    shuffle rs (length (preferredNeighbors @ otherNeighbors) - 1)
                      (preferredNeighbors @ otherNeighbors) p;
                  stack2 = stack1 @ fst shuffled;
                  p1 = snd shuffled
              in
                if floatValue (rs p1) < roundDouble (3 / 10)
                then expandRegion rs w h cid targetSize
                       (grid1, visited1, region1, stack2, randomIndex (rs (p1 + 1)) 4, p1 + 2)
                else expandRegion rs w h cid targetSize
                       (grid1, visited1, region1, stack2, snakeDirection, p1 + 1)))
      else (grid, visited, region, p))"
  by pat_completeness auto
termination
  by (relation "measures [\<lambda>(rs, w, h, cid, targetSize, grid, visited, region, stack, rest).
                            length (filter (\<lambda>v. v = - 1) grid),
                          \<lambda>(rs, w, h, cid, targetSize, grid, visited, region, stack, rest).
                            length stack]")
     (auto simp: gridAt_def intro!: count_empty_update split: if_splits)

declare expandRegion.simps [simp del]

text \<open>
  The loop \<open>for (colorId = 0; colorId < numColors; colorId++)\<close> over the colour ids that
  remain, on the state \<open>(grid, visited, regions, position of the next draw)\<close>; it breaks
  when no cell is unvisited.
\<close>

fun makeRegions ::
  "rng \<Rightarrow> nat \<Rightarrow> nat \<Rightarrow> nat \<Rightarrow> nat \<Rightarrow> nat list \<Rightarrow> int list \<times> nat list \<times> nat list list \<times> nat \<Rightarrow>
   int list \<times> nat list \<times> nat list list \<times> nat" where
  "makeRegions rs w h targetCellsPerPath remainder [] st = st"
| "makeRegions rs w h targetCellsPerPath remainder (cid # cids) (grid, visited, regions, p) =
     (let targetSize = targetCellsPerPath + (if cid < remainder then 1 else 0) in
        case find (\<lambda>i. i \<notin> set visited) [0..<w * h] of
          None \<Rightarrow> (grid, visited, regions, p)
        | Some startIdx \<Rightarrow>
            (let snakeDirection = randomIndex (rs p) 4;
                 (grid', visited', region, p') =
                    expandRegion rs w h cid targetSize
                      (grid, visited, [], [startIdx], snakeDirection, p + 1)
             in makeRegions rs w h targetCellsPerPath remainder cids
                  (grid', visited', regions @ [region], p')))"

text \<open>
  Phase 2: the search for the nearest region of cell \<open>i\<close>; \<open>minDist\<close> is \<open>None\<close> for
  \<open>Infinity\<close>.
\<close>

definition nearestRegionOf :: "nat \<Rightarrow> nat \<Rightarrow> nat list list \<Rightarrow> nat" where
  "nearestRegionOf w i regions =
     fst (foldl
            (\<lambda>(nearestRegion, minDist) (j, reg).
               if reg = [] then (nearestRegion, minDist)
               else
                 (let regionCenter = reg ! (length reg div 2);
                      dist = \<bar>int (i div w) - int (regionCenter div w)\<bar> +
                             \<bar>int (i mod w) - int (regionCenter mod w)\<bar>
                  in if (case minDist of None \<Rightarrow> True | Some m \<Rightarrow> dist < m)
                     then (j, Some dist) else (nearestRegion, minDist)))
            (0, None) (enumerate 0 regions))"

text \<open>
  \<open>regions[nearestRegion].push(i)\<close> throws a \<open>TypeError\<close> when \<open>regions\<close> has no such
  entry (it is empty).
\<close>

fun assignRemaining ::
  "nat \<Rightarrow> nat list \<Rightarrow> int list \<times> nat list list \<Rightarrow> js_error + int list \<times> nat list list" where
  "assignRemaining w [] st = Inr st"
| "assignRemaining w (i # cells) (grid, regions) =
     (if gridAt grid i = Some (- 1) then
        (let nearestRegion = nearestRegionOf w i regions in
           if nearestRegion < length regions
           then assignRemaining w cells
                  (grid[i := int nearestRegion],
                   regions[nearestRegion := regions ! nearestRegion @ [i]])
           else Inl TypeError)
      else assignRemaining w cells (grid, regions))"

text \<open>
  Phase 3: the recursive closure \<open>dfs\<close>, with the pending calls of the \<open>for\<close> loops of all
  active invocations as one list: \<open>dfs(idx)\<close> followed by the calls still to make. The state
  is \<open>(visitedInRegion, path)\<close>. \<open>Array.prototype.sort\<close> is stable, as \<open>sort_key\<close> is.
\<close>

lemma dfs_unvisited_decrease:
  "idx \<in> set region \<Longrightarrow> idx \<notin> set v \<Longrightarrow>
     card (set region - set v) - Suc 0 < card (set region - set v)"
proof -
  assume "idx \<in> set region" "idx \<notin> set v"
  then have "set region - set v \<noteq> {}" by blast
  then have "0 < card (set region - set v)" by (simp add: card_gt_0_iff)
  then show ?thesis by simp
qed

function dfsVisit ::
  "nat \<Rightarrow> nat \<Rightarrow> nat list \<Rightarrow> nat list \<Rightarrow> nat list \<times> nat list \<Rightarrow> nat list \<times> nat list" where
  "dfsVisit w h region [] st = st"
| "dfsVisit w h region (idx # pending) (visitedInRegion, pth) =
     (if idx \<in> set visitedInRegion \<or> idx \<notin> set region
      then dfsVisit w h region pending (visitedInRegion, pth)
      else
        (let visited1 = visitedInRegion @ [idx];
             unvisited = (\<lambda>n. n \<in> set region \<and> n \<notin> set visited1);
             validNeighbors = filter unvisited (getNeighbors idx w h);
             sorted =
               sort_key (\<lambda>a. length (filter unvisited (getNeighbors a w h))) validNeighbors
         in dfsVisit w h region (sorted @ pending) (visited1, pth @ [idx])))"
  by pat_completeness auto
termination
  by (relation "measures [\<lambda>(w, h, region, pending, visitedInRegion, pth).
                            card (set region - set visitedInRegion),
                          \<lambda>(w, h, region, pending, visitedInRegion, pth). length pending]")
     (auto simp: dfs_unvisited_decrease)

declare dfsVisit.simps [simp del]

definition indexOf :: "nat list \<Rightarrow> nat \<Rightarrow> nat" where
  "indexOf xs x = length (takeWhile (\<lambda>y. y \<noteq> x) xs)"

text \<open>The cells the traversal did not reach are spliced into the path.\<close>

fun spliceRemaining :: "nat \<Rightarrow> nat \<Rightarrow> nat list \<Rightarrow> nat list \<Rightarrow> nat list" where
  "spliceRemaining w h [] pth = pth"
| "spliceRemaining w h (cell # cells) pth =
     (case filter (\<lambda>n. n \<in> set pth) (getNeighbors cell w h) of
        [] \<Rightarrow> spliceRemaining w h cells (pth @ [cell])
      | pn # others \<Rightarrow>
          (let insertIdx = indexOf pth pn + 1 in
             spliceRemaining w h cells (take insertIdx pth @ [cell] @ drop insertIdx pth)))"

definition regionPath :: "nat \<Rightarrow> nat \<Rightarrow> nat list \<Rightarrow> nat list" where
  "regionPath w h region =
     (let startCell =
            (case find (\<lambda>cell. cell div w = 0 \<or> int (cell div w) = int h - 1 \<or>
                               cell mod w = 0 \<or> int (cell mod w) = int w - 1) region of
               Some cell \<Rightarrow> cell
             | None \<Rightarrow> region ! 0);
          (visitedInRegion, pth) = dfsVisit w h region [startCell] ([], [])
      in
        if length pth < length region
        then spliceRemaining w h (filter (\<lambda>cell. cell \<notin> set visitedInRegion) region) pth
        else pth)"

text \<open>
  What is pushed to \<open>paths\<close> for the path of one region: the path, a prefix of it, or
  nothing.
\<close>

definition choosePath :: "nat \<Rightarrow> nat list \<Rightarrow> nat list option" where
  "choosePath w pth =
     (let len = length pth in
        if 3 \<le> len \<and> \<not> areAdjacent (pth ! 0) (pth ! (len - 1)) w then Some pth
        else if 3 \<le> len then
          (let betterEnd =
                 (case find (\<lambda>i. \<not> areAdjacent (pth ! 0) (pth ! i) w) (rev [1..<len - 1]) of
                    Some i \<Rightarrow> pth ! i
                  | None \<Rightarrow> pth ! (len - 1));
               endIdx = indexOf pth betterEnd
           in
             if 0 < endIdx \<and> endIdx < len - 1 then
               (let adjustedPath = take (endIdx + 1) pth in
                  if 3 \<le> length adjustedPath then Some adjustedPath else None)
             else Some pth)
        else None)"

definition pathsOfRegions :: "nat \<Rightarrow> nat \<Rightarrow> nat list list \<Rightarrow> Path list" where
  "pathsOfRegions w h regions =
     concat
       (map (\<lambda>(cid, region).
               if region = [] then []
               else (case choosePath w (regionPath w h region) of
                       None \<Rightarrow> []
                     | Some pth \<Rightarrow> [\<lparr>colorId = cid, path = pth\<rparr>]))
          (enumerate 0 regions))"

text \<open>
  The repair of adjacent anchors. \<open>anchors[anchor1]\<close> and \<open>anchors[anchor2]\<close> are the
  anchors of colour \<open>c\<close>, since the two indices were grouped under \<open>c\<close>. For
  \<open>paletteLen = 0\<close> the remainder \<open>p.colorId % paletteLen\<close> is \<open>NaN\<close> and no path is found.
\<close>

definition fixAnchors :: "nat \<Rightarrow> nat \<Rightarrow> Path list \<Rightarrow> (nat \<times> nat) list \<Rightarrow> (nat \<times> nat) list" where
  "fixAnchors w paletteLen ps as =
     foldl
       (\<lambda>fixedAnchors (c, anchorIndices).
          if length anchorIndices = 2 then
            (let anchor1 = anchorIndices ! 0; anchor2 = anchorIndices ! 1 in
               case find (\<lambda>p. paletteLen \<noteq> 0 \<and> colorId p mod paletteLen = c) ps of
                 Some P \<Rightarrow>
                   if areAdjacent anchor1 anchor2 w then
                     (let newAnchor2 =
                            (case find (\<lambda>candidate. \<not> areAdjacent anchor1 candidate w)
                                    (butlast (tl (path P))) of
                               Some candidate \<Rightarrow> candidate
                             | None \<Rightarrow> anchor2)
                      in anchorsPut (anchorsPut fixedAnchors anchor1 c) newAnchor2 c)
                   else anchorsPut (anchorsPut fixedAnchors anchor1 c) anchor2 c
               | None \<Rightarrow> anchorsPut (anchorsPut fixedAnchors anchor1 c) anchor2 c)
          else fixedAnchors)
       [] (groupAnchors as)"

text \<open>
  \<open>generateFallbackLevel\<close>, from position \<open>p\<close> of the random source. For
  \<open>numColors \<le> 0\<close> the region loop does not run, so the values of
  \<open>targetCellsPerPath\<close> and \<open>remainder\<close> are not used.
\<close>

definition generateFallbackLevel ::
  "rng \<Rightarrow> nat \<Rightarrow> nat \<Rightarrow> nat \<Rightarrow> int \<Rightarrow> int \<Rightarrow> nat \<Rightarrow> js_error + LevelData" where
  "generateFallbackLevel rs p w h minC maxC paletteLen =
     (let sz = w * h;
          numColors =
            min (int paletteLen)
              (max minC
                 \<lfloor>roundDouble
                    (roundDouble (floatValue (rs p) * of_int (maxC - minC + 1)) + of_int minC)\<rfloor>);
          nc = nat numColors;
          targetCellsPerPath = sz div nc;
          remainder = sz mod nc;
          (grid1, visited, regions, p1) =
             makeRegions rs w h targetCellsPerPath remainder [0..<nc]
               (replicate sz (- 1), [], [], p + 1)
      in
        case assignRemaining w [0..<sz] (grid1, regions) of
          Inl err \<Rightarrow> Inl err
        | Inr (grid2, regions2) \<Rightarrow>
            (let ps0 = pathsOfRegions w h regions2;
                 (colorAssignments, p2) = shuffle rs (nc - 1) [0..<nc] p1;
                 ps = map (\<lambda>(i, P). P\<lparr>colorId :=
                             colorAssignments ! (if int i < numColors then i else i mod nc)\<rparr>)
                        (enumerate 0 ps0);
                 as = anchorsOf ps;
                 fixedAnchors = fixAnchors w paletteLen ps as
             in
               if \<not> validateAnchors as w \<and> validateAnchors fixedAnchors w
               then Inr \<lparr>width = w, height = h, anchors = fixedAnchors,
                         difficulty = length ps, solvedPaths = Some ps\<rparr>
               else Inr \<lparr>width = w, height = h, anchors = as, difficulty = length ps,
                         solvedPaths = Some ps\<rparr>))"

section \<open>\<open>generateLevel\<close>\<close>

text \<open>
  \<open>mulberry32\<close> (lib/prng.ts) is a parameter: \<open>mulberry32 s\<close> is the sequence of draws of
  the generator made for seed \<open>s\<close>. \<open>mathRandom\<close> is the sequence of values \<open>Math.random\<close>
  returns during the call. \<open>randomSource\<close> is the conditional
  \<open>seed ? mulberry32(seed) : Math.random\<close>: an absent seed and the seed \<open>0\<close> are falsy.
  Of the palette only its length is used. The result is \<open>(level, usedFallback)\<close>, or the
  exception the fallback throws; \<open>maxAttempts ?? 2000\<close> keeps a budget of \<open>0\<close>.
\<close>

definition randomSource :: "(int \<Rightarrow> rng) \<Rightarrow> rng \<Rightarrow> int option \<Rightarrow> rng" where
  "randomSource mulberry32 mathRandom seed =
     (case seed of
        None \<Rightarrow> mathRandom
      | Some s \<Rightarrow> if s \<noteq> 0 then mulberry32 s else mathRandom)"

definition generateLevel ::
  "(int \<Rightarrow> rng) \<Rightarrow> rng \<Rightarrow> nat \<Rightarrow> nat \<Rightarrow> int \<Rightarrow> int \<Rightarrow> 'p list option \<Rightarrow> int option \<Rightarrow> nat option \<Rightarrow>
   js_error + LevelData \<times> bool" where
  "generateLevel mulberry32 mathRandom w h minC maxC palette seed maxAttempts =
     (let random = randomSource mulberry32 mathRandom seed;
          paletteLen = (case palette of None \<Rightarrow> 20 | Some pal \<Rightarrow> length pal);
          targetColors = pickTargetColors paletteLen minC maxC (random 0);
          attemptsLimit = (case maxAttempts of None \<Rightarrow> 2000 | Some m \<Rightarrow> m)
      in
        case attemptsLoop random w h minC targetColors attemptsLimit 1 of
          (Some lvl, p) \<Rightarrow> Inr (lvl, False)
        | (None, p) \<Rightarrow>
            (case generateFallbackLevel random p w h minC maxC paletteLen of
               Inl err \<Rightarrow> Inl err
             | Inr lvl \<Rightarrow> Inr (lvl, True)))"
section \<open>Colour counts (utils/color-utils.ts, utils/grid-utils.ts)\<close>

definition matchesSize :: "nat \<Rightarrow> nat \<Rightarrow> (nat \<times> nat) list \<Rightarrow> bool" where
  "matchesSize w h sizes = list_ex (\<lambda>(a, b). (w = a \<and> h = b) \<or> (w = b \<and> h = a)) sizes"

text \<open>\<open>getGridSizeConfig\<close>: the pair \<open>(maxCellsPerColor, minCellsPerColor)\<close>.\<close>

definition getGridSizeConfig :: "nat \<Rightarrow> nat \<Rightarrow> nat \<times> nat" where
  "getGridSizeConfig w h =
     (if max w h \<le> 9 then (10, 6)
      else if matchesSize w h [(8, 11), (10, 10), (9, 12), (11, 11), (10, 13)] then (9, 6)
      else if matchesSize w h [(12, 12), (11, 14), (13, 13), (12, 15), (14, 14)] then (8, 6)
      else if matchesSize w h [(13, 16), (15, 15), (14, 17), (15, 18), (16, 19)] then (7, 6)
      else (6, 6))"

text \<open>
  \<open>calculateColorCounts\<close>: the pair \<open>(minC, maxC)\<close>. \<open>Math.ceil(a / b)\<close> of two counts is
  \<open>(a + b - 1) div b\<close>, and \<open>Math.floor(n * 0.75)\<close> is \<open>3 * n div 4\<close>.
\<close>

definition calculateColorCounts :: "nat \<Rightarrow> nat \<Rightarrow> nat \<Rightarrow> nat \<times> nat" where
  "calculateColorCounts w h maxPaletteSize =
     (let totalCells = w * h;
          (maxCellsPerColor, minCellsPerColor) = getGridSizeConfig w h;
          idealMinC = (totalCells + maxCellsPerColor - 1) div maxCellsPerColor;
          idealMaxC = (totalCells + minCellsPerColor - 1) div minCellsPerColor;
          calculatedMinC = max 4 idealMinC;
          calculatedMaxC = idealMaxC
      in
        if maxPaletteSize < calculatedMaxC
        then (max 4 (3 * maxPaletteSize div 4), maxPaletteSize)
        else (calculatedMinC, min maxPaletteSize (max calculatedMinC calculatedMaxC)))"

section \<open>The daily challenge (lib/daily-challenge.ts)\<close>

text \<open>
  The \<open>Date\<close> object of ECMAScript, as far as \<open>dateToSeed\<close> and \<open>getTodayDateString\<close> use
  it. A time value is a number of milliseconds since 1970-01-01T00:00:00Z. A date-only
  string \<open>YYYY-MM-DD\<close> denotes midnight UTC of that day; \<open>getFullYear\<close>, \<open>getMonth\<close> and
  \<open>getDate\<close> return the fields of the local time, which is the time value shifted by the
  host's offset from UTC (\<open>utcOffset\<close>, in minutes, negative west of Greenwich). The
  calendar is the proleptic Gregorian one, in days since the epoch.
\<close>

definition daysFromCivil :: "int \<Rightarrow> int \<Rightarrow> int \<Rightarrow> int" where
  "daysFromCivil y m d =
     (let y' = (if m \<le> 2 then y - 1 else y);
          era = y' div 400;
          yoe = y' - era * 400;
          doy = (153 * (if 2 < m then m - 3 else m + 9) + 2) div 5 + d - 1;
          doe = yoe * 365 + yoe div 4 - yoe div 100 + doy
      in era * 146097 + doe - 719468)"

definition civilFromDays :: "int \<Rightarrow> int \<times> int \<times> int" where
  "civilFromDays z =
     (let z' = z + 719468;
          era = z' div 146097;
          doe = z' - era * 146097;
          yoe = (doe - doe div 1460 + doe div 36524 - doe div 146096) div 365;
          doy = doe - (365 * yoe + yoe div 4 - yoe div 100);
          mp = (5 * doy + 2) div 153;
          d = doy - (153 * mp + 2) div 5 + 1;
          m = (if mp < 10 then mp + 3 else mp - 9)
      in (if m \<le> 2 then yoe + era * 400 + 1 else yoe + era * 400, m, d))"

definition daysInMonth :: "int \<Rightarrow> int \<Rightarrow> int" where
  "daysInMonth y m =
     (if m = 2 then (if y mod 4 = 0 \<and> (y mod 100 \<noteq> 0 \<or> y mod 400 = 0) then 29 else 28)
      else if m = 4 \<or> m = 6 \<or> m = 9 \<or> m = 11 then 30 else 31)"

definition digitOf :: "char \<Rightarrow> int option" where
  "digitOf c =
     (let n = (of_char c :: nat) in if 48 \<le> n \<and> n \<le> 57 then Some (int n - 48) else None)"

fun digitsValue :: "int \<Rightarrow> string \<Rightarrow> int option" where
  "digitsValue acc [] = Some acc"
| "digitsValue acc (c # cs) =
     (case digitOf c of None \<Rightarrow> None | Some v \<Rightarrow> digitsValue (acc * 10 + v) cs)"

text \<open>
  \<open>new Date(dateString)\<close> for a date-only string: the time value, or \<open>None\<close> for an invalid
  date (\<open>NaN\<close>). Only strings of the form \<open>YYYY-MM-DD\<close> that name a day of the calendar are
  given a value; this is the form \<open>getTodayDateString\<close> produces.
\<close>

definition parseDateOnly :: "string \<Rightarrow> int option" where
  "parseDateOnly s =
     (if length s = 10 \<and> s ! 4 = CHR ''-'' \<and> s ! 7 = CHR ''-'' then
        (case (digitsValue 0 (take 4 s), digitsValue 0 (take 2 (drop 5 s)),
               digitsValue 0 (drop 8 s)) of
           (Some y, Some m, Some d) \<Rightarrow>
             if 1 \<le> m \<and> m \<le> 12 \<and> 1 \<le> d \<and> d \<le> daysInMonth y m
             then Some (daysFromCivil y m d * 86400000)
             else None
         | other \<Rightarrow> None)
      else None)"

text \<open>The local fields \<open>(getFullYear(), getMonth() + 1, getDate())\<close> of a time value.\<close>

definition localDate :: "int \<Rightarrow> int \<Rightarrow> int \<times> int \<times> int" where
  "localDate utcOffset t = civilFromDays ((t + utcOffset * 60000) div 86400000)"

text \<open>\<open>dateToSeed\<close>; \<open>None\<close> is \<open>NaN\<close>.\<close>

definition dateToSeed :: "int \<Rightarrow> string \<Rightarrow> int option" where
  "dateToSeed utcOffset dateString =
     (case parseDateOnly dateString of
        None \<Rightarrow> None
      | Some t \<Rightarrow>
          (case localDate utcOffset t of (year, month, day) \<Rightarrow>
             Some (year * 10000 + month * 100 + day)))"

text \<open>\<open>String(n)\<close> for a non-negative integer, and \<open>padStart(2, '0')\<close>.\<close>

fun decimal :: "nat \<Rightarrow> string" where
  "decimal n =
     (if n < 10 then [char_of (48 + n)] else decimal (n div 10) @ [char_of (48 + n mod 10)])"

definition padStart2 :: "string \<Rightarrow> string" where
  "padStart2 s = replicate (2 - length s) (CHR ''0'') @ s"

text \<open>
  \<open>getTodayDateString\<close> at the time value \<open>now\<close> (\<open>new Date()\<close>), for years from \<open>0\<close> on.
\<close>

definition getTodayDateString :: "int \<Rightarrow> int \<Rightarrow> string" where
  "getTodayDateString utcOffset now =
     (case localDate utcOffset now of (year, month, day) \<Rightarrow>
        decimal (nat year) @ ''-'' @ padStart2 (decimal (nat month)) @ ''-'' @
        padStart2 (decimal (nat day)))"

text \<open>
  \<open>generateDailyChallenge\<close>: the seed that reaches \<open>generateLevel\<close>, and the call itself.
  \<open>palette\<close> is the palette of the theme \<open>WATER\<close>. A \<open>NaN\<close> seed is falsy, as an absent one.
\<close>

definition dailySeed :: "int \<Rightarrow> int \<Rightarrow> int option" where
  "dailySeed utcOffset now = dateToSeed utcOffset (getTodayDateString utcOffset now)"

definition generateDailyChallenge ::
  "(int \<Rightarrow> rng) \<Rightarrow> rng \<Rightarrow> int \<Rightarrow> int \<Rightarrow> 'p list \<Rightarrow> js_error + LevelData" where
  "generateDailyChallenge mulberry32 mathRandom utcOffset now palette =
     (let seed = dailySeed utcOffset now;
          (minC, maxC) = calculateColorCounts 8 8 (length palette)
      in
        case generateLevel mulberry32 mathRandom 8 8 (int minC) (int maxC) (Some palette) seed None of
          Inl err \<Rightarrow> Inl err
        | Inr (lvl, usedFallback) \<Rightarrow> Inr lvl)"
section \<open>Properties stated about validated levels\<close>



text \<open>Rules 1 and 3 raise no error: every colour of the anchor table passes.\<close>

definition anchorRulesPass :: "LevelData \<Rightarrow> Path list \<Rightarrow> bool" where
  "anchorRulesPass levelData sps =
     (firstError (checkColor sps) (groupAnchors (anchors levelData)) = None)"

text \<open>Levels used as concrete inputs.\<close>

definition rowLevel :: LevelData where
  "rowLevel = \<lparr>width = 3, height = 1, anchors = [(0, 0), (2, 0)], difficulty = 1,
     solvedPaths = Some [\<lparr>colorId = 0, path = [0, 1, 2]\<rparr>]\<rparr>"

definition offGridLevel :: LevelData where
  "offGridLevel = \<lparr>width = 3, height = 3,
     anchors = [(0, 0), (2, 0), (3, 1), (5, 1), (9, 2), (11, 2)], difficulty = 3,
     solvedPaths = Some [\<lparr>colorId = 0, path = [0, 1, 2]\<rparr>, \<lparr>colorId = 1, path = [3, 4, 5]\<rparr>,
                         \<lparr>colorId = 2, path = [9, 10, 11]\<rparr>]\<rparr>"

definition blockLevel :: LevelData where
  "blockLevel = \<lparr>width = 3, height = 3, anchors = [(0, 0), (3, 0)], difficulty = 1,
     solvedPaths = Some [\<lparr>colorId = 0, path = [0, 1, 4, 3]\<rparr>]\<rparr>"

definition overlapLevel :: LevelData where
  "overlapLevel = \<lparr>width = 3, height = 1, anchors = [(0, 0), (2, 0)], difficulty = 1,
     solvedPaths = Some [\<lparr>colorId = 0, path = [0, 1, 1, 2]\<rparr>]\<rparr>"


definition columnLevel :: LevelData where
  "columnLevel = \<lparr>width = 1, height = 3, anchors = [(0, 0), (2, 0)], difficulty = 1,
     solvedPaths = Some [\<lparr>colorId = 0, path = [0, 1, 2]\<rparr>]\<rparr>"

text \<open>
  A generator stub that returns the row level on its first two calls and the column level
  afterwards, and a fingerprint that tells them apart by the width.
\<close>

definition stubGen :: "nat \<Rightarrow> js_error + LevelData option" where
  "stubGen attempt = (if attempt < 2 then Inr (Some rowLevel) else Inr (Some columnLevel))"

definition stubHash :: "LevelData \<Rightarrow> js_error + string" where
  "stubHash lvl = Inr (if width lvl = 3 then ''F'' else ''G'')"

text \<open>Random sources used as concrete inputs.\<close>

definition constStream :: "rat \<Rightarrow> rng" where
  "constStream q i = toUnit q"

definition centreStream :: rng where
  "centreStream i = toUnit (if 1 \<le> i \<and> i \<le> 9 then 1 / 2 else 0)"

definition centreStream' :: rng where
  "centreStream' i = toUnit (if 1 \<le> i \<and> i \<le> 9 \<or> i = 23 then 1 / 2 else 0)"


text \<open>
  The draw before the clamp to the palette: \<open>Math.floor(random() * (maxC - minC + 1) + minC)\<close>,
  as the code computes it in doubles (\<open>unclampedPick\<close>) and as the same formula evaluates in
  exact arithmetic (\<open>exactPick\<close>).
\<close>

definition exactPick :: "int \<Rightarrow> int \<Rightarrow> unit_float \<Rightarrow> int" where
  "exactPick minC maxC r = \<lfloor>floatValue r * of_int (maxC - minC + 1) + of_int minC\<rfloor>"

definition unclampedPick :: "int \<Rightarrow> int \<Rightarrow> unit_float \<Rightarrow> int" where
  "unclampedPick minC maxC r =
     \<lfloor>roundDouble (roundDouble (floatValue r * of_int (maxC - minC + 1)) + of_int minC)\<rfloor>"

subsection \<open>Invariants of the primary generator\<close>

text \<open>
  Invariants of one attempt of the primary generator, for a grid of \<open>n\<close> cells. \<open>cellsOk\<close>
  ties \<open>emptyCells\<close> to \<open>grid\<close>; \<open>growInv\<close> holds during the growth of a path whose
  predecessors occupy the cells \<open>old\<close> and filled \<open>f0\<close> cells; \<open>fillInv\<close> holds between
  two paths.
\<close>

definition cellsOk :: "nat \<Rightarrow> int list \<Rightarrow> nat list \<Rightarrow> bool" where
  "cellsOk n g ec = (length g = n \<and> distinct ec \<and> (\<forall>x \<in> set ec. x < n \<and> g ! x = - 1))"

definition growInv ::
  "nat \<Rightarrow> nat set \<Rightarrow> nat \<Rightarrow> int list \<times> nat list \<times> nat list \<times> nat \<times> nat \<times> nat \<Rightarrow> bool" where
  "growInv n old f0 s =
     (case s of (g, ec, cp, f, c, p) \<Rightarrow>
        cellsOk n g ec \<and> cp \<noteq> [] \<and> distinct cp \<and>
        (\<forall>x \<in> set cp. x < n \<and> g ! x \<noteq> - 1 \<and> x \<notin> old) \<and>
        (\<forall>x \<in> old. g ! x \<noteq> - 1) \<and> f = f0 + length cp)"

definition fillInv :: "nat \<Rightarrow> attempt_state \<Rightarrow> bool" where
  "fillInv n st =
     (cellsOk n (sGrid st) (sEmptyCells st) \<and>
      distinct (allCells (sPaths st)) \<and>
      (\<forall>x \<in> set (allCells (sPaths st)). x < n \<and> sGrid st ! x \<noteq> - 1) \<and>
      sFilledCount st = length (allCells (sPaths st)) \<and>
      (\<forall>P \<in> set (sPaths st). 3 \<le> length (path P)))"

text \<open>The two ends of every path, in path order.\<close>

definition endpoints :: "Path list \<Rightarrow> nat list" where
  "endpoints ps = concat (map (\<lambda>P. [path P ! 0, path P ! (length (path P) - 1)]) ps)"

text \<open>
  What a level of the primary generator looks like: the paths \<open>ps\<close> are its solution, they
  tile the \<open>w\<close> by \<open>h\<close> grid, each has at least three cells and a colour of its own, and the
  anchors are exactly the two ends of every path, never side by side.
\<close>

definition primaryLevelOk :: "nat \<Rightarrow> nat \<Rightarrow> LevelData \<Rightarrow> Path list \<Rightarrow> bool" where
  "primaryLevelOk w h lvl ps =
     (solvedPaths lvl = Some ps \<and> width lvl = w \<and> height lvl = h \<and>
      distinct (allCells ps) \<and> set (allCells ps) = {0..<w * h} \<and>
      (\<forall>P \<in> set ps. 3 \<le> length (path P)) \<and>
      distinct (map colorId ps) \<and> distinct (map fst (anchors lvl)) \<and>
      (\<forall>cell c. (cell, c) \<in> set (anchors lvl) \<longleftrightarrow>
         (\<exists>P \<in> set ps. colorId P = c \<and> (cell = hd (path P) \<or> cell = last (path P)))) \<and>
      (\<forall>P \<in> set ps. \<not> areAdjacent (hd (path P)) (last (path P)) w))"

section \<open>The validator: disjointness, coverage and the degree rule\<close>


lemma firstError_Some_split:
  "firstError f xs = Some e \<Longrightarrow>
     \<exists>ys x zs. xs = ys @ x # zs \<and> (\<forall>y \<in> set ys. f y = None) \<and> f x = Some e"
proof (induction xs)
  case Nil
  then show ?case by simp
next
  case (Cons a xs)
  show ?case
  proof (cases "f a")
    case None
    with Cons.prems have "firstError f xs = Some e" by simp
    from Cons.IH[OF this] obtain ys x zs where
      "xs = ys @ x # zs" "\<forall>y \<in> set ys. f y = None" "f x = Some e" by blast
    with None have "a # xs = (a # ys) @ x # zs \<and> (\<forall>y \<in> set (a # ys). f y = None) \<and> f x = Some e"
      by simp
    then show ?thesis by blast
  next
    case (Some e')
    with Cons.prems have "e' = e" by simp
    with Some have "a # xs = [] @ a # xs \<and> (\<forall>y \<in> set []. f y = None) \<and> f a = Some e"
      by simp
    then show ?thesis by blast
  qed
qed

lemma findOverlap_None_iff:
  "findOverlap seen cs = None \<longleftrightarrow> distinct cs \<and> set cs \<inter> set seen = {}"
  by (induction cs arbitrary: seen) auto

lemma findOverlap_Some:
  "findOverlap seen cs = Some c \<Longrightarrow>
     \<exists>ys zs. cs = ys @ c # zs \<and> distinct ys \<and> set ys \<inter> set seen = {} \<and> c \<in> set seen \<union> set ys"
proof (induction cs arbitrary: seen)
  case Nil
  then show ?case by simp
next
  case (Cons a cs)
  show ?case
  proof (cases "a \<in> set seen")
    case True
    with Cons.prems have "a = c" by simp
    with True have "a # cs = [] @ c # cs \<and> distinct [] \<and> set [] \<inter> set seen = {} \<and>
        c \<in> set seen \<union> set []"
      by simp
    then show ?thesis by blast
  next
    case False
    with Cons.prems have "findOverlap (a # seen) cs = Some c" by simp
    from Cons.IH[OF this] obtain ys zs where
      h: "cs = ys @ c # zs" "distinct ys" "set ys \<inter> set (a # seen) = {}"
         "c \<in> set (a # seen) \<union> set ys"
      by blast
    with False have "a # cs = (a # ys) @ c # zs \<and> distinct (a # ys) \<and>
        set (a # ys) \<inter> set seen = {} \<and> c \<in> set seen \<union> set (a # ys)"
      by auto
    then show ?thesis by blast
  qed
qed

lemma findOverlap_repeated:
  assumes "findOverlap [] cs = Some c"
  shows "2 \<le> count_list cs c"
proof -
  from findOverlap_Some[OF assms] obtain ys zs where
    "cs = ys @ c # zs" "c \<in> set ys" by auto
  then have "0 < count_list ys c" by (cases "count_list ys c") (auto simp: count_list_0_iff)
  with \<open>cs = ys @ c # zs\<close> show ?thesis by simp
qed

lemma distinct_card_full:
  assumes "distinct cs" "length cs = n" "\<forall>c \<in> set cs. c < n"
  shows "set cs = {0..<n}"
proof -
  have "set cs \<subseteq> {0..<n}" using assms(3) by auto
  moreover have "card (set cs) = card {0..<n}"
    using assms(1,2) by (simp add: distinct_card)
  ultimately show ?thesis by (simp add: card_subset_eq)
qed

lemma validate_Valid_D:
  assumes "validateNumberlinkRules L = Valid"
  obtains sps where "solvedPaths L = Some sps" "sps \<noteq> []" "anchorRulesPass L sps"
    "findOverlap [] (allCells sps) = None"
    "length (remdups (allCells sps)) = width L * height L"
    "firstError (checkBranching (width L) (height L)) sps = None"
    "firstError checkUTurn sps = None"
  using assms unfolding validateNumberlinkRules_def anchorRulesPass_def Let_def
  by (auto split: option.splits if_splits)

lemma validate_after_anchor_rules:
  assumes "solvedPaths L = Some sps" "sps \<noteq> []" "anchorRulesPass L sps"
  shows "validateNumberlinkRules L =
     (case findOverlap [] (allCells sps) of
        Some cell \<Rightarrow> Invalid (PathsOverlap cell)
      | None \<Rightarrow>
          if length (remdups (allCells sps)) \<noteq> width L * height L
          then Invalid (GridNotFilled (length (remdups (allCells sps))) (width L * height L))
          else
            (case firstError (checkBranching (width L) (height L)) sps of
               Some e \<Rightarrow> Invalid e
             | None \<Rightarrow> (case firstError checkUTurn sps of Some e \<Rightarrow> Invalid e | None \<Rightarrow> Valid)))"
  using assms unfolding validateNumberlinkRules_def anchorRulesPass_def Let_def
  by (simp split: option.splits)


lemma checkBranching_Some:
  assumes "checkBranching w h P = Some e"
  shows "e = BranchingAtEndpoint (colorId P) \<or>
         (\<exists>cell \<in> set (path P). e = BranchingAtCell (colorId P) cell)"
proof -
  from firstError_Some_split[OF assms[unfolded checkBranching_def]] obtain ys i zs where
    "[0..<length (path P)] = ys @ i # zs" "checkBranchingAt w h P i = Some e" by blast
  then have "i \<in> set [0..<length (path P)]" by simp
  then have "i < length (path P)" by simp
  with \<open>checkBranchingAt w h P i = Some e\<close> show ?thesis
    unfolding checkBranchingAt_def Let_def by (auto split: if_splits)
qed







lemma rowLevel_valid: "validateNumberlinkRules rowLevel = Valid"
  by code_simp

lemma offGridLevel_valid: "validateNumberlinkRules offGridLevel = Valid"
  by code_simp


lemma blockLevel_anchorRulesPass:
  "anchorRulesPass blockLevel [\<lparr>colorId = 0, path = [0, 1, 4, 3]\<rparr>]"
  by code_simp

lemma overlapLevel_anchorRulesPass:
  "anchorRulesPass overlapLevel [\<lparr>colorId = 0, path = [0, 1, 1, 2]\<rparr>]"
  by code_simp


text \<open>
  What the validator does ensure. It returns valid only if no cell occurs twice in the
  solution paths (in two paths or twice in one) and the number of path cells equals
  \<open>width * height\<close>; when every path cell is a grid cell the paths then cover exactly the
  cells \<open>0 .. width * height - 1\<close>. When the level has solution paths and the anchor rules
  (1 and 3) raise no error, a repeated cell yields the overlap error naming a cell that
  occurs twice, and otherwise a cell count different from \<open>width * height\<close> yields the
  coverage error with that count.
\<close>

lemma validator_disjoint_and_counted:
  "(validateNumberlinkRules L = Valid \<longrightarrow>
      (\<exists>sps. solvedPaths L = Some sps \<and> distinct (allCells sps) \<and>
             length (allCells sps) = width L * height L \<and>
             ((\<forall>c \<in> set (allCells sps). c < width L * height L) \<longrightarrow>
                set (allCells sps) = {0..<width L * height L}))) \<and>
   (\<forall>sps. solvedPaths L = Some sps \<and> sps \<noteq> [] \<and> anchorRulesPass L sps \<and>
          \<not> distinct (allCells sps) \<longrightarrow>
          (\<exists>c. validateNumberlinkRules L = Invalid (PathsOverlap c) \<and>
               2 \<le> count_list (allCells sps) c)) \<and>
   (\<forall>sps. solvedPaths L = Some sps \<and> sps \<noteq> [] \<and> anchorRulesPass L sps \<and>
          distinct (allCells sps) \<and> length (allCells sps) \<noteq> width L * height L \<longrightarrow>
          validateNumberlinkRules L =
            Invalid (GridNotFilled (length (allCells sps)) (width L * height L)))"
proof (intro conjI impI allI)
  assume v: "validateNumberlinkRules L = Valid"
  from validate_Valid_D[OF v] obtain sps where
    s: "solvedPaths L = Some sps" and
    o: "findOverlap [] (allCells sps) = None" and
    n: "length (remdups (allCells sps)) = width L * height L" by blast
  from o have d: "distinct (allCells sps)" by (simp add: findOverlap_None_iff)
  with n have len: "length (allCells sps) = width L * height L" by (simp add: distinct_remdups_id)
  have "(\<forall>c \<in> set (allCells sps). c < width L * height L) \<longrightarrow>
          set (allCells sps) = {0..<width L * height L}"
    using distinct_card_full[OF d len] by blast
  with s d len show "\<exists>sps. solvedPaths L = Some sps \<and> distinct (allCells sps) \<and>
             length (allCells sps) = width L * height L \<and>
             ((\<forall>c \<in> set (allCells sps). c < width L * height L) \<longrightarrow>
                set (allCells sps) = {0..<width L * height L})" by blast
next
  fix sps
  assume a: "solvedPaths L = Some sps \<and> sps \<noteq> [] \<and> anchorRulesPass L sps \<and>
          \<not> distinct (allCells sps)"
  then obtain c where c: "findOverlap [] (allCells sps) = Some c"
    using findOverlap_None_iff[of "[]" "allCells sps"]
    by (cases "findOverlap [] (allCells sps)") auto
  from a have "validateNumberlinkRules L = Invalid (PathsOverlap c)"
    using validate_after_anchor_rules[of L sps] c by simp
  with findOverlap_repeated[OF c]
  show "\<exists>c. validateNumberlinkRules L = Invalid (PathsOverlap c) \<and>
               2 \<le> count_list (allCells sps) c" by blast
next
  fix sps
  assume a: "solvedPaths L = Some sps \<and> sps \<noteq> [] \<and> anchorRulesPass L sps \<and>
          distinct (allCells sps) \<and> length (allCells sps) \<noteq> width L * height L"
  then have o: "findOverlap [] (allCells sps) = None" by (simp add: findOverlap_None_iff)
  from a have r: "remdups (allCells sps) = allCells sps" by (simp add: distinct_remdups_id)
  from a show "validateNumberlinkRules L =
            Invalid (GridNotFilled (length (allCells sps)) (width L * height L))"
    using validate_after_anchor_rules[of L sps] o r by simp
qed

text \<open>
  Three levels: a valid \<open>3 \<times> 1\<close> row, whose path covers the cells \<open>0, 1, 2\<close>; a path that
  uses cell \<open>1\<close> twice; and a \<open>3 \<times> 3\<close> level with four cells.
\<close>

lemma validator_disjoint_and_counted_examples:
  "validateNumberlinkRules rowLevel = Valid \<and>
   (\<exists>sps. solvedPaths rowLevel = Some sps \<and> distinct (allCells sps) \<and>
          set (allCells sps) = {0..<3}) \<and>
   (\<exists>c. validateNumberlinkRules overlapLevel = Invalid (PathsOverlap c) \<and>
        2 \<le> count_list [0, 1, 1, 2] c) \<and>
   validateNumberlinkRules blockLevel = Invalid (GridNotFilled 4 9)"
proof (intro conjI)
  show v: "validateNumberlinkRules rowLevel = Valid" by (rule rowLevel_valid)
  from validator_disjoint_and_counted[of rowLevel] v
  show "\<exists>sps. solvedPaths rowLevel = Some sps \<and> distinct (allCells sps) \<and>
          set (allCells sps) = {0..<3}"
    by (auto simp: rowLevel_def allCells_def)
  from validator_disjoint_and_counted[of overlapLevel] overlapLevel_anchorRulesPass
  show "\<exists>c. validateNumberlinkRules overlapLevel = Invalid (PathsOverlap c) \<and>
        2 \<le> count_list [0, 1, 1, 2] c"
    by (simp add: overlapLevel_def allCells_def)
  from validator_disjoint_and_counted[of blockLevel] blockLevel_anchorRulesPass
  show "validateNumberlinkRules blockLevel = Invalid (GridNotFilled 4 9)"
    by (simp add: blockLevel_def allCells_def)
qed

text \<open>
  Claim C5 (the code misses the coverage). The validator is to return valid only if no
  cell is used twice and the path cells are exactly the \<open>width * height\<close> cells of the grid.
  Its rule 4 (\<open>grid should be filled\<close>) compares the number of distinct path cells with
  \<open>width * height\<close> and never tests that a path cell lies in the grid. The level below has
  its third path in the row under a \<open>3 \<times> 3\<close> grid: the validator accepts it, the grid
  cells \<open>6\<close>, \<open>7\<close> and \<open>8\<close> are in no path, and the path cells \<open>9\<close>, \<open>10\<close> and \<open>11\<close> are no
  cells of the grid.
\<close>

theorem validator_accepts_uncovered_grid:
  "validateNumberlinkRules offGridLevel = Valid \<and>
   width offGridLevel * height offGridLevel = 9 \<and>
   solvedPaths offGridLevel =
     Some [\<lparr>colorId = 0, path = [0, 1, 2]\<rparr>, \<lparr>colorId = 1, path = [3, 4, 5]\<rparr>,
           \<lparr>colorId = 2, path = [9, 10, 11]\<rparr>] \<and>
   set (allCells [\<lparr>colorId = 0, path = [0, 1, 2]\<rparr>, \<lparr>colorId = 1, path = [3, 4, 5]\<rparr>,
                  \<lparr>colorId = 2, path = [9, 10, 11]\<rparr>]) = {0, 1, 2, 3, 4, 5, 9, 10, 11} \<and>
   {0, 1, 2, 3, 4, 5, 9, 10, 11} \<noteq> {0..<9 :: nat}"
proof -
  have "(6 :: nat) \<in> {0..<9}" by simp
  moreover have "(6 :: nat) \<notin> {0, 1, 2, 3, 4, 5, 9, 10, 11}" by simp
  ultimately have "{0, 1, 2, 3, 4, 5, 9, 10, 11} \<noteq> {0..<9 :: nat}" by metis
  then show ?thesis
    using offGridLevel_valid by (simp add: offGridLevel_def allCells_def)
qed





section \<open>The retry loop\<close>

lemma attemptLoop_exhaust:
  "(\<forall>i. a \<le> i \<and> i < m \<longrightarrow> attemptBody gen hf ex i = None) \<Longrightarrow>
     attemptLoop gen hf ex m a = (\<lparr>level = None, hash = None, isUnique = False, attempts = m\<rparr>, ex)"
proof (induction gen hf ex m a rule: attemptLoop.induct)
  case (1 gen hf ex m a)
  show ?case
  proof (cases "a < m")
    case True
    with "1.prems" have b: "attemptBody gen hf ex a = None" by simp
    have "attemptLoop gen hf ex m (a + 1) =
            (\<lparr>level = None, hash = None, isUnique = False, attempts = m\<rparr>, ex)"
      using "1.IH"[OF True b] "1.prems" by simp
    with True b show ?thesis by simp
  next
    case False
    then show ?thesis by simp
  qed
qed

lemma attemptLoop_first:
  "a \<le> k \<Longrightarrow> k < m \<Longrightarrow> (\<forall>i. a \<le> i \<and> i < k \<longrightarrow> attemptBody gen hf ex i = None) \<Longrightarrow>
   attemptBody gen hf ex k = Some r \<Longrightarrow> attemptLoop gen hf ex m a = (r, ex)"
proof (induction gen hf ex m a rule: attemptLoop.induct)
  case (1 gen hf ex m a)
  from "1.prems" have am: "a < m" by simp
  show ?case
  proof (cases "a = k")
    case True
    with "1.prems" am show ?thesis by simp
  next
    case False
    with "1.prems" have b: "attemptBody gen hf ex a = None" and "a + 1 \<le> k" by simp_all
    have "attemptLoop gen hf ex m (a + 1) = (r, ex)"
      using "1.IH"[OF am b \<open>a + 1 \<le> k\<close> "1.prems"(2) _ "1.prems"(4)] "1.prems"(3) by simp
    with am b show ?thesis by simp
  qed
qed

lemma attemptLoop_cases:
  "attemptLoop gen hf ex m a = (r, ex') \<Longrightarrow>
     ex' = ex \<and>
     ((\<exists>k. a \<le> k \<and> k < m \<and> attemptBody gen hf ex k = Some r) \<or>
      r = \<lparr>level = None, hash = None, isUnique = False, attempts = m\<rparr>)"
proof (induction gen hf ex m a rule: attemptLoop.induct)
  case (1 gen hf ex m a)
  show ?case
  proof (cases "a < m")
    case True
    show ?thesis
    proof (cases "attemptBody gen hf ex a")
      case None
      with True "1.prems" have "attemptLoop gen hf ex m (a + 1) = (r, ex')" by simp
      from "1.IH"[OF True None this] show ?thesis
        by (metis Suc_eq_plus1 Suc_leD)
    next
      case (Some r')
      with True "1.prems" have "r' = r" "ex' = ex" by simp_all
      with Some True show ?thesis by blast
    qed
  next
    case False
    with "1.prems" show ?thesis by simp
  qed
qed

lemma attemptBody_Some_D:
  assumes "attemptBody gen hf ex i = Some r"
  obtains L h where "gen i = Inr (Some L)" "validateNumberlinkRules L = Valid" "hf L = Inr h"
    "h \<noteq> []" "h \<notin> ex" "r = \<lparr>level = Some L, hash = Some h, isUnique = True, attempts = i + 1\<rparr>"
  using assms unfolding attemptBody_def
  by (auto split: sum.splits option.splits if_splits)

text \<open>
  Claim C1 (the code misses it). On exhausting the attempt bound the loop is to return the
  last generated candidate with a warning, so that the caller always has a puzzle. The code
  returns no puzzle: when no iteration within the bound accepts its candidate (each one
  throws, yields no level, fails validation, or has an empty or already seen hash),
  \<open>generateUniqueLevelSync\<close> returns \<open>level = null\<close> and \<open>hash = null\<close> with
  \<open>isUnique = false\<close> and \<open>attempts\<close> equal to the bound, whatever the iterations generated.
  It does return normally, and the set of seen hashes is unchanged.
\<close>

theorem exhaustion_returns_no_level:
  "(\<forall>i < attemptBound mo. \<not> accepts gen hf ex i) \<Longrightarrow>
     generateUniqueLevelSync gen hf ex mo =
       (\<lparr>level = None, hash = None, isUnique = False, attempts = attemptBound mo\<rparr>, ex)"
  unfolding generateUniqueLevelSync_def accepts_def
  using attemptLoop_exhaust[of 0 "attemptBound mo" gen hf ex]
  by simp

text \<open>
  The theorem with a bound of two attempts, where the generator returns the valid
  \<open>3 \<times> 1\<close> row each time and its hash is already in the set.
\<close>

theorem exhaustion_returns_no_level_witness:
  "\<not> accepts (\<lambda>attempt. Inr (Some rowLevel)) (\<lambda>lvl. Inr ''3x1'') {''3x1''} 0 \<and>
   \<not> accepts (\<lambda>attempt. Inr (Some rowLevel)) (\<lambda>lvl. Inr ''3x1'') {''3x1''} 1 \<and>
   generateUniqueLevelSync (\<lambda>attempt. Inr (Some rowLevel)) (\<lambda>lvl. Inr ''3x1'') {''3x1''} (Some 2) =
     (\<lparr>level = None, hash = None, isUnique = False, attempts = 2\<rparr>, {''3x1''})"
proof -
  have h: "\<forall>i < attemptBound (Some 2).
      \<not> accepts (\<lambda>attempt. Inr (Some rowLevel)) (\<lambda>lvl. Inr ''3x1'') {''3x1''} i"
    by (simp add: accepts_def attemptBody_def rowLevel_valid)
  from exhaustion_returns_no_level[OF h] h show ?thesis
    by (simp add: attemptBound_def)
qed

text \<open>
  In that run both attempts generated the row level, a valid puzzle, and the level
  returned is not that candidate.
\<close>

lemma exhaustion_drops_last_candidate:
  "level (fst (generateUniqueLevelSync (\<lambda>attempt. Inr (Some rowLevel)) (\<lambda>lvl. Inr ''3x1'')
            {''3x1''} (Some 2))) \<noteq> Some rowLevel"
  by (simp add: generateUniqueLevelSync_def attemptBound_def attemptBody_def rowLevel_valid)

text \<open>
  Claim C3. Let the seen-set contain \<open>F\<close>, let the generator return valid levels with
  fingerprint \<open>F\<close> on its first \<open>k\<close> calls, \<open>k\<close> below the attempt bound, and on the next call
  a valid level with a fingerprint \<open>G\<close> distinct from the seen ones (a non-empty string
  outside the seen-set). Then \<open>generateUniqueLevelSync\<close> returns that level with its hash
  \<open>G\<close>, \<open>isUnique = true\<close> and \<open>attempts = k + 1\<close>, and no iteration whose candidate has
  fingerprint \<open>F\<close> accepts it.
\<close>

theorem unique_loop_skips_seen:
  assumes "F \<in> seen" and "k < attemptBound mo"
    and "\<forall>i < k. \<exists>L. gen i = Inr (Some L) \<and> validateNumberlinkRules L = Valid \<and> hf L = Inr F"
    and "gen k = Inr (Some Lk)" and "validateNumberlinkRules Lk = Valid"
    and "hf Lk = Inr G" and "G \<notin> seen" and "G \<noteq> []"
  shows "generateUniqueLevelSync gen hf seen mo =
           (\<lparr>level = Some Lk, hash = Some G, isUnique = True, attempts = k + 1\<rparr>, seen) \<and>
         (\<forall>i L. gen i = Inr (Some L) \<and> hf L = Inr F \<longrightarrow> \<not> accepts gen hf seen i)"
proof
  have before: "\<forall>i. 0 \<le> i \<and> i < k \<longrightarrow> attemptBody gen hf seen i = None"
  proof (intro allI impI)
    fix i assume "0 \<le> i \<and> i < k"
    with assms(3) obtain L where "gen i = Inr (Some L)" "hf L = Inr F" by blast
    with assms(1) show "attemptBody gen hf seen i = None"
      by (simp add: attemptBody_def)
  qed
  have at: "attemptBody gen hf seen k =
              Some \<lparr>level = Some Lk, hash = Some G, isUnique = True, attempts = k + 1\<rparr>"
    using assms(4-8) by (simp add: attemptBody_def)
  show "generateUniqueLevelSync gen hf seen mo =
           (\<lparr>level = Some Lk, hash = Some G, isUnique = True, attempts = k + 1\<rparr>, seen)"
    unfolding generateUniqueLevelSync_def
    using attemptLoop_first[OF _ _ before at, of "attemptBound mo"] assms(2)
    by simp
  show "\<forall>i L. gen i = Inr (Some L) \<and> hf L = Inr F \<longrightarrow> \<not> accepts gen hf seen i"
    using assms(1) by (auto simp: accepts_def attemptBody_def)
qed

lemma columnLevel_valid: "validateNumberlinkRules columnLevel = Valid"
  by code_simp

text \<open>
  The theorem with the seen-set \<open>{F}\<close>, a bound of five attempts and the stub that returns
  two levels with fingerprint \<open>F\<close> and then one with fingerprint \<open>G\<close>.
\<close>

theorem unique_loop_skips_seen_witness:
  "''F'' \<in> {''F''} \<and> 2 < attemptBound (Some 5) \<and>
   stubGen 0 = Inr (Some rowLevel) \<and> stubGen 1 = Inr (Some rowLevel) \<and>
   validateNumberlinkRules rowLevel = Valid \<and> stubHash rowLevel = Inr ''F'' \<and>
   stubGen 2 = Inr (Some columnLevel) \<and> validateNumberlinkRules columnLevel = Valid \<and>
   stubHash columnLevel = Inr ''G'' \<and> ''G'' \<notin> {''F''} \<and> ''G'' \<noteq> [] \<and>
   generateUniqueLevelSync stubGen stubHash {''F''} (Some 5) =
     (\<lparr>level = Some columnLevel, hash = Some ''G'', isUnique = True, attempts = 3\<rparr>, {''F''})"
proof -
  have 1: "''F'' \<in> {''F''}" by simp
  have 2: "2 < attemptBound (Some 5)" by (simp add: attemptBound_def)
  have 3: "\<forall>i < 2. \<exists>L. stubGen i = Inr (Some L) \<and> validateNumberlinkRules L = Valid \<and>
                 stubHash L = Inr ''F''"
    by (simp add: stubGen_def stubHash_def rowLevel_valid) (simp add: rowLevel_def)
  have 4: "stubGen 2 = Inr (Some columnLevel)" by (simp add: stubGen_def)
  have 5: "validateNumberlinkRules columnLevel = Valid" by (rule columnLevel_valid)
  have 6: "stubHash columnLevel = Inr ''G''" by (simp add: stubHash_def columnLevel_def)
  have 7: "''G'' \<notin> {''F''}" by simp
  have 8: "''G'' \<noteq> []" by simp
  have 9: "stubGen 0 = Inr (Some rowLevel) \<and> stubGen 1 = Inr (Some rowLevel) \<and>
           stubHash rowLevel = Inr ''F''"
    by (simp add: stubGen_def stubHash_def rowLevel_def)
  from unique_loop_skips_seen[OF 1 2 3 4 5 6 7 8] 1 2 4 5 6 7 8 9 rowLevel_valid show ?thesis
    by simp
qed

text \<open>
  Claim C10. \<open>generateUniqueLevelSync\<close> returns a non-null level only if that level passes
  \<open>validateNumberlinkRules\<close> and its hash is not in \<open>existingHashes\<close>; then \<open>isUnique\<close> is
  true, \<open>hash\<close> is that level's hash and \<open>attempts\<close> is at most the bound. In every other case
  it returns \<open>level = null\<close>, \<open>hash = null\<close>, \<open>isUnique = false\<close> and \<open>attempts\<close> equal to the
  bound. The set \<open>existingHashes\<close> is the same after the call.
\<close>

theorem unique_result_shape:
  "generateUniqueLevelSync gen hf ex mo = (r, ex') \<Longrightarrow>
     (\<forall>L. level r = Some L \<longrightarrow>
        validateNumberlinkRules L = Valid \<and>
        (\<exists>h. hf L = Inr h \<and> h \<notin> ex \<and> hash r = Some h) \<and>
        isUnique r \<and> attempts r \<le> attemptBound mo) \<and>
     (level r = None \<longrightarrow> hash r = None \<and> \<not> isUnique r \<and> attempts r = attemptBound mo) \<and>
     ex' = ex"
proof -
  assume a: "generateUniqueLevelSync gen hf ex mo = (r, ex')"
  then have l: "attemptLoop gen hf ex (attemptBound mo) 0 = (r, ex')"
    by (simp add: generateUniqueLevelSync_def)
  from attemptLoop_cases[OF l] have e: "ex' = ex" and
    c: "(\<exists>k. k < attemptBound mo \<and> attemptBody gen hf ex k = Some r) \<or>
        r = \<lparr>level = None, hash = None, isUnique = False, attempts = attemptBound mo\<rparr>"
    by auto
  from c show ?thesis
  proof
    assume "\<exists>k. k < attemptBound mo \<and> attemptBody gen hf ex k = Some r"
    then obtain k where k: "k < attemptBound mo" and b: "attemptBody gen hf ex k = Some r" by blast
    from b obtain L h where "gen k = Inr (Some L)" "validateNumberlinkRules L = Valid"
      "hf L = Inr h" "h \<notin> ex"
      "r = \<lparr>level = Some L, hash = Some h, isUnique = True, attempts = k + 1\<rparr>"
      by (rule attemptBody_Some_D)
    with k e show ?thesis by simp
  next
    assume "r = \<lparr>level = None, hash = None, isUnique = False, attempts = attemptBound mo\<rparr>"
    with e show ?thesis by simp
  qed
qed

text \<open>
  The theorem at the stubbed run above, which returns a level, and at a run of two attempts
  that both throw, which returns none.
\<close>

theorem unique_result_shape_witness:
  "validateNumberlinkRules columnLevel = Valid \<and>
   stubHash columnLevel = Inr ''G'' \<and> ''G'' \<notin> {''F''} \<and>
   attempts (fst (generateUniqueLevelSync stubGen stubHash {''F''} (Some 5))) \<le> 5 \<and>
   generateUniqueLevelSync (\<lambda>attempt. Inl Thrown) stubHash {''F''} (Some 2) =
     (\<lparr>level = None, hash = None, isUnique = False, attempts = 2\<rparr>, {''F''})"
proof -
  let ?run = "generateUniqueLevelSync stubGen stubHash {''F''} (Some 5)"
  have lv: "level (fst ?run) = Some columnLevel"
    by (simp add: generateUniqueLevelSync_def attemptBound_def attemptBody_def stubGen_def
        stubHash_def rowLevel_valid columnLevel_valid)
       (simp add: rowLevel_def columnLevel_def)
  from unique_result_shape[of stubGen stubHash "{''F''}" "Some 5" "fst ?run" "snd ?run"] lv
  have a: "validateNumberlinkRules columnLevel = Valid \<and>
           (\<exists>h. stubHash columnLevel = Inr h \<and> h \<notin> {''F''}) \<and>
           attempts (fst ?run) \<le> 5"
    by (auto simp: attemptBound_def)
  let ?fail = "generateUniqueLevelSync (\<lambda>attempt. Inl Thrown) stubHash {''F''} (Some 2)"
  have ln: "level (fst ?fail) = None"
    by (simp add: generateUniqueLevelSync_def attemptBound_def attemptBody_def)
  from unique_result_shape[of "\<lambda>attempt. Inl Thrown" stubHash "{''F''}" "Some 2"
      "fst ?fail" "snd ?fail"] ln
  have b: "hash (fst ?fail) = None \<and> \<not> isUnique (fst ?fail) \<and> attempts (fst ?fail) = 2 \<and>
           snd ?fail = {''F''}"
    by (simp add: attemptBound_def)
  have "fst ?fail = \<lparr>level = None, hash = None, isUnique = False, attempts = 2\<rparr>"
    using ln b by (cases "fst ?fail") simp
  with b have "?fail = (\<lparr>level = None, hash = None, isUnique = False, attempts = 2\<rparr>, {''F''})"
    by (simp add: prod_eq_iff)
  with a show ?thesis by (auto simp: stubHash_def columnLevel_def)
qed
section \<open>The generator: target colours, seeds and the fallback\<close>

text \<open>Below \<open>2\<^sup>5\<^sup>3\<close> rounding never crosses an integer.\<close>

lemma roundDouble_int_barrier_pos:
  assumes x: "0 < x" "x < 2 ^ 53"
  shows "of_int m \<le> x \<Longrightarrow> of_int m \<le> roundDouble x"
    and "x \<le> of_int m \<Longrightarrow> roundDouble x \<le> of_int m"
proof -
  have "x < 2 powi 53" using x(2) by simp
  from exponentOf_less[OF x(1) this] have e: "exponentOf x - 52 \<le> 0" by simp
  define j where "j = nat (- max (exponentOf x - 52) (- 1074))"
  have u: "ulp x = 1 / 2 ^ j"
    using e by (simp add: ulp_def j_def power_int_minus_divide[symmetric] power_int_nonneg_exp[symmetric] max_def)
  have q: "x / ulp x = x * 2 ^ j" by (simp add: u)
  have K: "(2::rat) ^ j = of_int (2 ^ j)" by simp
  {
    assume "of_int m \<le> x"
    then have "of_int (m * 2 ^ j) \<le> x * 2 ^ j" by simp
    then have "m * 2 ^ j \<le> roundHalfEven (x / ulp x)" unfolding q by (rule roundHalfEven_ge)
    then have "(of_int (m * 2 ^ j) :: rat) \<le> of_int (roundHalfEven (x / ulp x))"
      by (simp only: of_int_le_iff)
    then have "(of_int m :: rat) * 2 ^ j \<le> of_int (roundHalfEven (x / ulp x))" by simp
    then show "of_int m \<le> roundDouble x"
      by (simp add: roundDouble_pos[OF x(1)] u pos_le_divide_eq)
  }
  {
    assume "x \<le> of_int m"
    then have "x * 2 ^ j \<le> of_int (m * 2 ^ j)" by simp
    then have "roundHalfEven (x / ulp x) \<le> m * 2 ^ j" unfolding q by (rule roundHalfEven_le)
    then have "(of_int (roundHalfEven (x / ulp x)) :: rat) \<le> of_int (m * 2 ^ j)"
      by (simp only: of_int_le_iff)
    then have "(of_int (roundHalfEven (x / ulp x)) :: rat) \<le> of_int m * 2 ^ j" by simp
    then show "roundDouble x \<le> of_int m"
      by (simp add: roundDouble_pos[OF x(1)] u pos_divide_le_eq)
  }
qed

lemma roundDouble_int_barrier:
  assumes x: "\<bar>x\<bar> < 2 ^ 53"
  shows "of_int m \<le> x \<Longrightarrow> of_int m \<le> roundDouble x"
    and "x \<le> of_int m \<Longrightarrow> roundDouble x \<le> of_int m"
proof -
  consider "x = 0" | "0 < x" | "x < 0" by linarith
  then have "(of_int m \<le> x \<longrightarrow> of_int m \<le> roundDouble x) \<and>
             (x \<le> of_int m \<longrightarrow> roundDouble x \<le> of_int m)"
  proof cases
    case 1
    then show ?thesis by (simp add: roundDouble_def)
  next
    case 2
    with x have "x < 2 ^ 53" by simp
    from roundDouble_int_barrier_pos[OF 2 this, of m] show ?thesis by blast
  next
    case 3
    then have p: "0 < - x" by simp
    from x 3 have "- x < 2 ^ 53" by simp
    note b = roundDouble_int_barrier_pos[OF p this, of "- m"]
    have r: "roundDouble x = - roundDouble (- x)" by (simp add: roundDouble_neg)
    have 1: "of_int m \<le> x \<longrightarrow> of_int m \<le> roundDouble x"
    proof
      assume "of_int m \<le> x"
      then have "- x \<le> of_int (- m)" by simp
      from b(2)[OF this] show "of_int m \<le> roundDouble x" unfolding r by simp
    qed
    have 2: "x \<le> of_int m \<longrightarrow> roundDouble x \<le> of_int m"
    proof
      assume "x \<le> of_int m"
      then have "of_int (- m) \<le> - x" by simp
      from b(1)[OF this] show "roundDouble x \<le> of_int m" unfolding r by simp
    qed
    from 1 2 show ?thesis by blast
  qed
  then show "of_int m \<le> x \<Longrightarrow> of_int m \<le> roundDouble x"
    and "x \<le> of_int m \<Longrightarrow> roundDouble x \<le> of_int m" by blast+
qed

lemma roundDouble_of_int: "\<bar>of_int m :: rat\<bar> < 2 ^ 53 \<Longrightarrow> roundDouble (of_int m) = of_int m"
  using roundDouble_int_barrier[of "of_int m" m] by (simp add: order_antisym)






lemma generateLevel_primary_D:
  assumes "generateLevel mulberry32 mathRandom w h minC maxC palette seed maxAttempts
             = Inr (lvl, False)"
  obtains p where
    "attemptsLoop (randomSource mulberry32 mathRandom seed) w h minC
       (pickTargetColors (case palette of None \<Rightarrow> 20 | Some pal \<Rightarrow> length pal) minC maxC
          (randomSource mulberry32 mathRandom seed 0))
       (case maxAttempts of None \<Rightarrow> 2000 | Some m \<Rightarrow> m) 1 = (Some lvl, p)"
  using assms unfolding generateLevel_def Let_def
  by (auto split: prod.splits option.splits sum.splits)


lemma centreStream_run:
  "generateLevel (\<lambda>s. constStream 0) centreStream 3 3 2 2 (None :: unit list option) None None =
     Inr (\<lparr>width = 3, height = 3, anchors = [(0, 1), (2, 0), (3, 0), (4, 1)], difficulty = 2,
           solvedPaths = Some [\<lparr>colorId = 1, path = [4, 1, 0]\<rparr>,
                               \<lparr>colorId = 0, path = [2, 5, 8, 7, 6, 3]\<rparr>]\<rparr>, False)"
  by code_simp

lemma centreStream'_run:
  "generateLevel (\<lambda>s. constStream 0) centreStream' 3 3 2 2 (None :: unit list option) None None =
     Inr (\<lparr>width = 3, height = 3, anchors = [(0, 0), (2, 1), (3, 1), (4, 0)], difficulty = 2,
           solvedPaths = Some [\<lparr>colorId = 0, path = [4, 1, 0]\<rparr>,
                               \<lparr>colorId = 1, path = [2, 5, 8, 7, 6, 3]\<rparr>]\<rparr>, False)"
  by code_simp

lemma generateLevel_seed_zero:
  "generateLevel mulberry32 mathRandom w h minC maxC palette (Some 0) maxAttempts =
     generateLevel mulberry32 mathRandom w h minC maxC palette None maxAttempts"
  by (simp add: generateLevel_def randomSource_def)

lemma generateLevel_seeded:
  "s \<noteq> 0 \<Longrightarrow>
     generateLevel mulberry32 mathRandom w h minC maxC palette (Some s) maxAttempts =
     generateLevel mulberry32 mathRandom' w h minC maxC palette (Some s) maxAttempts"
  by (simp add: generateLevel_def randomSource_def)






text \<open>
  The value \<open>v + 1\<close> occurs: for the largest double below \<open>1\<close> and \<open>minC = maxC = 2\<close> the
  sum \<open>3 - 2\<^sup>-\<^sup>5\<^sup>3\<close> rounds to \<open>3\<close>.
\<close>

lemma unclampedPick_rounds_up:
  "exactPick 2 2 (toUnit (1 - 1 / 2 ^ 53)) = 2 \<and>
   unclampedPick 2 2 (toUnit (1 - 1 / 2 ^ 53)) = 3 \<and>
   pickTargetColors 20 2 2 (toUnit (1 - 1 / 2 ^ 53)) = 3"
  by code_simp

text \<open>
  Claim C7 (the code misses it for the seed \<open>0\<close>). \<open>generateLevel(3, 3, 2, 2, null, 0)\<close>
  draws from \<open>Math.random\<close>, because the seed \<open>0\<close> is falsy: two calls with these arguments,
  during which \<open>Math.random\<close> returns different values, return different levels.
\<close>

theorem seed_zero_not_deterministic:
  "generateLevel (\<lambda>s. constStream 0) centreStream 3 3 2 2 (None :: unit list option) (Some 0) None \<noteq>
   generateLevel (\<lambda>s. constStream 0) centreStream' 3 3 2 2 (None :: unit list option) (Some 0) None"
  by (simp add: generateLevel_seed_zero centreStream_run centreStream'_run)

text \<open>
  Claim C2 (the code misses the coverage). With an attempt budget of \<open>0\<close> the fallback runs.
  On a \<open>3 \<times> 3\<close> grid with four colours it returns the single path \<open>0, 1, 2\<close>: the regions of
  two cells are dropped. On a \<open>5 \<times> 5\<close> grid with four to five colours its fourth path is cut
  to three cells and cell \<open>16\<close> is in no path. Both runs draw \<open>0\<close> every time.
\<close>

theorem fallback_drops_cells:
  "generateLevel (\<lambda>s. constStream 0) (constStream 0) 3 3 4 4 (None :: unit list option) None (Some 0) =
     Inr (\<lparr>width = 3, height = 3, anchors = [(0, 1), (2, 1)], difficulty = 1,
           solvedPaths = Some [\<lparr>colorId = 1, path = [0, 1, 2]\<rparr>]\<rparr>, True) \<and>
   generateLevel (\<lambda>s. constStream 0) (constStream 0) 5 5 4 5 (None :: unit list option) None (Some 0) =
     Inr (\<lparr>width = 5, height = 5,
           anchors = [(0, 1), (5, 2), (10, 3), (14, 1), (15, 0), (18, 2), (19, 3), (21, 0)],
           difficulty = 4,
           solvedPaths = Some [\<lparr>colorId = 1, path = [0, 1, 2, 3, 4, 9, 14]\<rparr>,
                               \<lparr>colorId = 2, path = [5, 6, 7, 8, 13, 18]\<rparr>,
                               \<lparr>colorId = 3, path = [10, 11, 12, 17, 22, 23, 24, 19]\<rparr>,
                               \<lparr>colorId = 0, path = [15, 20, 21]\<rparr>]\<rparr>, True)"
  by code_simp

section \<open>The primary generator\<close>

subsection \<open>Growing paths keeps the grid consistent\<close>

lemma cellsOk_fill:
  assumes "cellsOk n g ec" "x < n" "g ! x = - 1" "v \<noteq> - 1"
  shows "cellsOk n (g[x := v]) (remove1 x ec)"
proof -
  from assms(1) have d: "distinct ec" and len: "length g = n"
    and e: "\<forall>y \<in> set ec. y < n \<and> g ! y = - 1"
    by (simp_all add: cellsOk_def)
  have "\<forall>y \<in> set (remove1 x ec). y < n \<and> g[x := v] ! y = - 1"
  proof
    fix y assume y: "y \<in> set (remove1 x ec)"
    with d have "y \<noteq> x" "y \<in> set ec" by auto
    with e show "y < n \<and> g[x := v] ! y = - 1" by simp
  qed
  with d len show ?thesis by (simp add: cellsOk_def)
qed

lemma filter_pick:
  assumes "xs = filter P ys" "xs \<noteq> []"
  shows "P (xs ! randomIndex r (length xs))"
proof -
  from assms(2) have "randomIndex r (length xs) < length xs" by (simp add: randomIndex_less)
  then have "xs ! randomIndex r (length xs) \<in> set xs" by (rule nth_mem)
  with assms(1) show ?thesis by simp
qed

lemma validMoves_pick:
  assumes "vm = filter (validMove w h g cid c) (getNeighbors c w h)" "vm \<noteq> []"
  shows "vm ! randomIndex r (length vm) < length g \<and> g ! (vm ! randomIndex r (length vm)) = - 1"
proof -
  from assms(2) have "randomIndex r (length vm) < length vm" by (simp add: randomIndex_less)
  then have "vm ! randomIndex r (length vm) \<in> set vm" by simp
  with assms(1) have "validMove w h g cid c (vm ! randomIndex r (length vm))" by simp
  then show ?thesis by (rule validMove_empty)
qed

lemma growInv_step:
  assumes "growInv n old f0 (g, ec, cp, f, c, p)" "x < length g" "g ! x = - 1"
  shows "growInv n old f0 (g[x := int cid], remove1 x ec, cp @ [x], f + 1, x, p')"
proof -
  from assms(1) have ok: "cellsOk n g ec" and ne: "cp \<noteq> []" and d: "distinct cp"
    and cpx: "\<forall>y \<in> set cp. y < n \<and> g ! y \<noteq> - 1 \<and> y \<notin> old"
    and ox: "\<forall>y \<in> old. g ! y \<noteq> - 1" and f: "f = f0 + length cp"
    by (simp_all add: growInv_def)
  from ok have len: "length g = n" by (simp add: cellsOk_def)
  from assms(2) len have xn: "x < n" by simp
  have ok': "cellsOk n (g[x := int cid]) (remove1 x ec)"
    using cellsOk_fill[OF ok xn assms(3)] by simp
  from cpx assms(3) have xcp: "x \<notin> set cp" by auto
  from ox assms(3) have xo: "x \<notin> old" by auto
  have "\<forall>y \<in> set (cp @ [x]). y < n \<and> g[x := int cid] ! y \<noteq> - 1 \<and> y \<notin> old"
    using cpx xn xo len by (auto simp: nth_list_update)
  moreover have "\<forall>y \<in> old. g[x := int cid] ! y \<noteq> - 1"
    using ox xo by (metis nth_list_update_neq)
  ultimately show ?thesis
    using ok' d xcp f by (simp add: growInv_def)
qed

lemma growPath_inv:
  "growInv n old f0 s \<Longrightarrow> growInv n old f0 (growPath rs w h cid s)"
proof (induction rs w h cid s rule: growPath.induct)
  case (1 rs w h cid g ec cp f c p)
  let ?vm = "filter (validMove w h g cid c) (getNeighbors c w h)"
  show ?case
  proof (cases "?vm = []")
    case True
    with "1.prems" show ?thesis by (subst growPath.simps) simp
  next
    case False
    let ?nx = "?vm ! randomIndex (rs p) (length ?vm)"
    from validMoves_pick[OF refl False] have nx: "?nx < length g" "g ! ?nx = - 1" by blast+
    have "growInv n old f0 (g[?nx := int cid], remove1 ?nx ec, cp @ [?nx], f + 1, ?nx, p + 1)"
      by (rule growInv_step[OF "1.prems" nx])
    from "1.IH"[OF refl False refl this] False show ?thesis
      by (subst growPath.simps) (simp add: Let_def)
  qed
qed


lemma pickStart_in:
  "ec \<noteq> [] \<Longrightarrow> pickStart rs w h g ec k p best = (b', p') \<Longrightarrow>
   (\<forall>i. fst best = Some i \<longrightarrow> i \<in> set ec) \<Longrightarrow> (\<forall>i. fst b' = Some i \<longrightarrow> i \<in> set ec)"
proof (induction k arbitrary: p best)
  case 0
  then show ?case by simp
next
  case (Suc k)
  let ?idx = "ec ! randomIndex (rs p) (length ec)"
  let ?free = "length (filter (\<lambda>n. gridAt g n = Some (- 1)) (getNeighbors ?idx w h))"
  let ?best' = "if ?free < snd best then (Some ?idx, ?free) else best"
  from Suc.prems(1) have "randomIndex (rs p) (length ec) < length ec"
    by (simp add: randomIndex_less)
  then have "?idx \<in> set ec" by simp
  with Suc.prems(3) have b: "\<forall>i. fst ?best' = Some i \<longrightarrow> i \<in> set ec" by simp
  from Suc.prems(2) have "pickStart rs w h g ec k (p + 1) ?best' = (b', p')"
    by (simp add: Let_def)
  from Suc.IH[OF Suc.prems(1) this b] show ?case .
qed

lemma growInv_fillInv:
  assumes g: "growInv n (set (allCells ps)) (length (allCells ps)) (g', e', cp', f', c', p')"
    and d: "distinct (allCells ps)" and l: "3 \<le> length cp'"
    and pl: "\<forall>P \<in> set ps. 3 \<le> length (path P)"
    and rng: "\<forall>x \<in> set (allCells ps). x < n"
  shows "fillInv n \<lparr>sGrid = g', sEmptyCells = e', sFilledCount = f',
                     sPaths = ps @ [\<lparr>colorId = cid, path = cp'\<rparr>], sStuck = b, sPos = q\<rparr>"
proof -
  from g have ok: "cellsOk n g' e'" and dc: "distinct cp'"
    and cpx: "\<forall>y \<in> set cp'. y < n \<and> g' ! y \<noteq> - 1 \<and> y \<notin> set (allCells ps)"
    and ox: "\<forall>y \<in> set (allCells ps). g' ! y \<noteq> - 1"
    and f: "f' = length (allCells ps) + length cp'"
    by (simp_all add: growInv_def)
  have ac: "allCells (ps @ [\<lparr>colorId = cid, path = cp'\<rparr>]) = allCells ps @ cp'"
    by (simp add: allCells_def)
  have "distinct (allCells ps @ cp')" using d dc cpx by auto
  moreover have "\<forall>x \<in> set (allCells ps @ cp'). x < n \<and> g' ! x \<noteq> - 1"
    using cpx ox rng by auto
  ultimately show ?thesis
    using ok f l pl by (simp add: fillInv_def ac)
qed

lemma pathStep_inv:
  assumes inv: "fillInv n st" and ne: "sEmptyCells st \<noteq> []"
    and ns: "\<not> sStuck (pathStep rs w h st)"
  shows "fillInv n (pathStep rs w h st)"
proof -
  let ?ec = "sEmptyCells st" and ?g = "sGrid st" and ?ps = "sPaths st"
  from inv have ok: "cellsOk n ?g ?ec" and d: "distinct (allCells ?ps)"
    and cx: "\<forall>x \<in> set (allCells ?ps). x < n \<and> ?g ! x \<noteq> - 1"
    and fc: "sFilledCount st = length (allCells ?ps)"
    and pl: "\<forall>P \<in> set ?ps. 3 \<le> length (path P)"
    by (simp_all add: fillInv_def)
  obtain best p1 where ps:
    "pickStart rs w h ?g ?ec (min (length ?ec) 15) (sPos st) (None, 99) = (best, p1)"
    by (cases "pickStart rs w h ?g ?ec (min (length ?ec) 15) (sPos st) (None, 99)")
  define start where "start = (case fst best of None \<Rightarrow> ?ec ! 0 | Some i \<Rightarrow> i)"
  define cid where "cid = length ?ps"
  from pickStart_in[OF ne ps] have "\<forall>i. fst best = Some i \<longrightarrow> i \<in> set ?ec" by simp
  with ne have "start \<in> set ?ec"
    by (cases "fst best") (simp_all add: start_def)
  with ok have sn: "start < n" and se: "?g ! start = - 1" by (simp_all add: cellsOk_def)
  from ok have len: "length ?g = n" by (simp add: cellsOk_def)
  have g0: "growInv n (set (allCells ?ps)) (length (allCells ?ps))
              (?g[start := int cid], remove1 start ?ec, [start], sFilledCount st + 1, start, p1)"
  proof -
    have "cellsOk n (?g[start := int cid]) (remove1 start ?ec)"
      using cellsOk_fill[OF ok sn se] by simp
    moreover have "start \<notin> set (allCells ?ps)" using cx se by auto
    moreover have "\<forall>y \<in> set (allCells ?ps). ?g[start := int cid] ! y \<noteq> - 1"
      using cx se by (metis nth_list_update_neq)
    ultimately show ?thesis using sn len fc by (simp add: growInv_def)
  qed
  obtain g2 e2 cp f2 c2 p2 where gp:
    "growPath rs w h cid
       (?g[start := int cid], remove1 start ?ec, [start], sFilledCount st + 1, start, p1)
     = (g2, e2, cp, f2, c2, p2)"
    by (metis prod_cases6)
  from growPath_inv[OF g0, of rs w h cid] gp
  have g2: "growInv n (set (allCells ?ps)) (length (allCells ?ps)) (g2, e2, cp, f2, c2, p2)"
    by simp
  let ?last = "cp ! (length cp - 1)"
  let ?ve = "filter (\<lambda>nx. gridAt g2 nx = Some (- 1) \<and> nx \<notin> set cp) (getNeighbors ?last w h)"
  let ?ext = "?ve ! randomIndex (rs p2) (length ?ve)"
  have step: "pathStep rs w h st =
    (if length cp < 3 then
       \<lparr>sGrid = g2, sEmptyCells = e2, sFilledCount = f2, sPaths = ?ps, sStuck = True, sPos = p2\<rparr>
     else if areAdjacent (cp ! 0) ?last w then
       (if ?ve \<noteq> [] then
          \<lparr>sGrid = g2[?ext := int cid], sEmptyCells = remove1 ?ext e2, sFilledCount = f2 + 1,
           sPaths = ?ps @ [\<lparr>colorId = cid, path = cp @ [?ext]\<rparr>], sStuck = False, sPos = p2 + 1\<rparr>
        else
          \<lparr>sGrid = g2, sEmptyCells = e2, sFilledCount = f2, sPaths = ?ps, sStuck = True, sPos = p2\<rparr>)
     else
       \<lparr>sGrid = g2, sEmptyCells = e2, sFilledCount = f2,
        sPaths = ?ps @ [\<lparr>colorId = cid, path = cp\<rparr>], sStuck = False, sPos = p2\<rparr>)"
    unfolding pathStep_def Let_def ps prod.case start_def[symmetric] cid_def[symmetric] gp
    by simp
  show ?thesis
  proof (cases "length cp < 3")
    case True
    with step ns show ?thesis by simp
  next
    case long: False
    show ?thesis
    proof (cases "areAdjacent (cp ! 0) ?last w")
      case adj: True
      show ?thesis
      proof (cases "?ve = []")
        case True
        with step ns long adj show ?thesis by simp
      next
        case False
        from filter_pick[OF refl False]
        have "gridAt g2 ?ext = Some (- 1)" by blast
        then have e: "?ext < length g2" "g2 ! ?ext = - 1"
          by (auto simp: gridAt_def split: if_splits)
        have "growInv n (set (allCells ?ps)) (length (allCells ?ps))
                (g2[?ext := int cid], remove1 ?ext e2, cp @ [?ext], f2 + 1, ?ext, p2 + 1)"
          by (rule growInv_step[OF g2 e])
        from growInv_fillInv[OF this d _ pl] long cx
        have "fillInv n \<lparr>sGrid = g2[?ext := int cid], sEmptyCells = remove1 ?ext e2,
                sFilledCount = f2 + 1,
                sPaths = ?ps @ [\<lparr>colorId = cid, path = cp @ [?ext]\<rparr>], sStuck = False,
                sPos = p2 + 1\<rparr>"
          by simp
        with step long adj False show ?thesis by simp
      qed
    next
      case False
      from growInv_fillInv[OF g2 d _ pl] long cx
      have "fillInv n \<lparr>sGrid = g2, sEmptyCells = e2, sFilledCount = f2,
              sPaths = ?ps @ [\<lparr>colorId = cid, path = cp\<rparr>], sStuck = False, sPos = p2\<rparr>"
        by simp
      with step long False show ?thesis by simp
    qed
  qed
qed

lemma fillGrid_inv:
  "fillInv n st \<Longrightarrow> \<not> sStuck st \<Longrightarrow> \<not> sStuck (fillGrid rs w h tc st) \<Longrightarrow>
     fillInv n (fillGrid rs w h tc st)"
proof (induction rs w h tc st rule: fillGrid.induct)
  case (1 rs w h tc st)
  let ?cond = "sFilledCount st < w * h \<and> sEmptyCells st \<noteq> [] \<and> int (length (sPaths st)) < tc"
  show ?case
  proof (cases ?cond)
    case False
    have "fillGrid rs w h tc st = st"
      by (subst fillGrid.simps, rule if_not_P, rule False)
    with "1.prems" show ?thesis by simp
  next
    case True
    let ?st' = "pathStep rs w h st"
    have eq: "fillGrid rs w h tc st = (if sStuck ?st' then ?st' else fillGrid rs w h tc ?st')"
      by (subst fillGrid.simps, subst if_P, rule True) (simp add: Let_def)
    show ?thesis
    proof (cases "sStuck ?st'")
      case True
      with eq "1.prems"(3) show ?thesis by simp
    next
      case False
      from True have ne: "sEmptyCells st \<noteq> []" by simp
      have i': "fillInv n ?st'" by (rule pathStep_inv[OF "1.prems"(1) ne False])
      from "1.prems"(3) eq False have "\<not> sStuck (fillGrid rs w h tc ?st')" by simp
      from "1.IH"[OF True refl False i' False this] eq False show ?thesis by simp
    qed
  qed
qed

subsection \<open>Shuffled colours and the anchor table\<close>

lemma shuffle_perm:
  "i < length xs \<or> i = 0 \<Longrightarrow> shuffle rs i xs p = (ys, p') \<Longrightarrow>
     length ys = length xs \<and> set ys = set xs \<and> (distinct xs \<longrightarrow> distinct ys)"
proof (induction i arbitrary: xs p)
  case 0
  then show ?case by simp
next
  case (Suc i)
  let ?j = "randomIndex (rs p) (Suc i + 1)"
  let ?xs' = "xs[Suc i := xs ! ?j, ?j := xs ! Suc i]"
  from Suc.prems(1) have i: "Suc i < length xs" by simp
  have "?j < Suc i + 1" by (rule randomIndex_less) simp
  with i have j: "?j < length xs" by simp
  from Suc.prems(2) have "shuffle rs i ?xs' (p + 1) = (ys, p')" by (simp add: Let_def)
  moreover from i have "i < length ?xs' \<or> i = 0" by simp
  ultimately have "length ys = length ?xs' \<and> set ys = set ?xs' \<and> (distinct ?xs' \<longrightarrow> distinct ys)"
    by (rule Suc.IH[rotated])
  moreover have "set ?xs' = set xs" using i j by (rule set_swap)
  moreover have "distinct ?xs' = distinct xs" using i j by (rule distinct_swap)
  ultimately show ?case by simp
qed

lemma recolor_length: "length (recolor ca ps) = length ps"
  by (simp add: recolor_def)

lemma recolor_nth: "i < length ps \<Longrightarrow> recolor ca ps ! i = (ps ! i)\<lparr>colorId := ca ! i\<rparr>"
  by (simp add: recolor_def nth_enumerate_eq)

lemma recolor_paths: "map path (recolor ca ps) = map path ps"
  by (rule nth_equalityI) (simp_all add: recolor_length recolor_nth)

lemma recolor_colors: "map colorId (recolor ca ps) = map (\<lambda>i. ca ! i) [0..<length ps]"
  by (rule nth_equalityI) (simp_all add: recolor_length recolor_nth)

lemma allCells_recolor: "allCells (recolor ca ps) = allCells ps"
  by (simp add: allCells_def recolor_paths)

lemma recolor_colors_distinct:
  assumes "length ps = length ca" "distinct ca"
  shows "distinct (map colorId (recolor ca ps))"
proof -
  have "map (\<lambda>i. ca ! i) [0..<length ca] = ca" by (rule map_nth)
  with assms show ?thesis by (simp add: recolor_colors)
qed

lemma anchorsPut_keys: "fst ` set (anchorsPut m k v) = insert k (fst ` set m)"
  by (induction m k v rule: anchorsPut.induct) auto

lemma anchorsPut_sorted:
  "sorted_wrt (<) (map fst m) \<Longrightarrow> sorted_wrt (<) (map fst (anchorsPut m k v))"
proof (induction m k v rule: anchorsPut.induct)
  case (1 k v)
  then show ?case by simp
next
  case (2 k' v' m k v)
  show ?case
  proof (cases "k = k'")
    case True
    with "2.prems" show ?thesis by simp
  next
    case ne: False
    show ?thesis
    proof (cases "k < k'")
      case True
      with "2.prems" ne show ?thesis by auto
    next
      case False
      from "2.prems" have s: "sorted_wrt (<) (map fst m)" and a: "\<forall>x \<in> set m. k' < fst x" by auto
      from "2.IH"[OF ne False s] have "sorted_wrt (<) (map fst (anchorsPut m k v))" .
      moreover have "\<forall>x \<in> set (anchorsPut m k v). k' < fst x"
      proof
        fix x assume "x \<in> set (anchorsPut m k v)"
        then have "fst x \<in> insert k (fst ` set m)" using anchorsPut_keys[of m k v] by blast
        with a ne False show "k' < fst x" by auto
      qed
      ultimately show ?thesis using ne False by simp
    qed
  qed
qed

lemma anchorsPut_map_of:
  "sorted_wrt (<) (map fst m) \<Longrightarrow> map_of (anchorsPut m k v) = (map_of m)(k \<mapsto> v)"
proof (induction m k v rule: anchorsPut.induct)
  case (1 k v)
  then show ?case by simp
next
  case (2 k' v' m k v)
  show ?case
  proof (cases "k = k'")
    case True
    then show ?thesis by (simp add: fun_eq_iff)
  next
    case ne: False
    show ?thesis
    proof (cases "k < k'")
      case True
      with ne show ?thesis by (simp add: fun_eq_iff)
    next
      case False
      from "2.prems" have "sorted_wrt (<) (map fst m)" by simp
      from "2.IH"[OF ne False this] ne False show ?thesis by (auto simp: fun_eq_iff)
    qed
  qed
qed

lemma sorted_less_distinct: "sorted_wrt (<) (xs :: nat list) \<Longrightarrow> distinct xs"
  by (induction xs) auto

lemma anchorsOf_snoc:
  "anchorsOf (ps @ [P]) =
     anchorsPut (anchorsPut (anchorsOf ps) (path P ! 0) (colorId P))
       (path P ! (length (path P) - 1)) (colorId P)"
  by (simp add: anchorsOf_def)

lemma anchorsOf_sorted: "sorted_wrt (<) (map fst (anchorsOf ps))"
proof (induction ps rule: rev_induct)
  case Nil
  then show ?case by (simp add: anchorsOf_def)
next
  case (snoc P ps)
  then show ?case by (simp add: anchorsOf_snoc anchorsPut_sorted)
qed

lemma endpoints_mem:
  "P \<in> set ps \<Longrightarrow> path P ! 0 \<in> set (endpoints ps) \<and>
     path P ! (length (path P) - 1) \<in> set (endpoints ps)"
  by (auto simp: endpoints_def)

lemma anchorsOf_map_of:
  "distinct (endpoints ps) \<Longrightarrow>
     map_of (anchorsOf ps) x = Some c \<longleftrightarrow>
       (\<exists>P \<in> set ps. (x = path P ! 0 \<or> x = path P ! (length (path P) - 1)) \<and> c = colorId P)"
proof (induction ps rule: rev_induct)
  case Nil
  then show ?case by (simp add: anchorsOf_def)
next
  case (snoc P ps)
  let ?f = "path P ! 0" and ?l = "path P ! (length (path P) - 1)"
  from snoc.prems have d: "distinct (endpoints ps)" and fl: "?f \<noteq> ?l"
    and nf: "?f \<notin> set (endpoints ps)" and nl: "?l \<notin> set (endpoints ps)"
    by (auto simp: endpoints_def)
  have m: "map_of (anchorsOf (ps @ [P])) = (map_of (anchorsOf ps))(?f \<mapsto> colorId P, ?l \<mapsto> colorId P)"
    by (simp add: anchorsOf_snoc anchorsPut_map_of anchorsPut_sorted anchorsOf_sorted)
  have old: "\<And>Q. Q \<in> set ps \<Longrightarrow> path Q ! 0 \<noteq> ?f \<and> path Q ! 0 \<noteq> ?l \<and>
               path Q ! (length (path Q) - 1) \<noteq> ?f \<and> path Q ! (length (path Q) - 1) \<noteq> ?l"
    using endpoints_mem nf nl by metis
  show ?case
  proof (cases "x = ?f \<or> x = ?l")
    case True
    then have "map_of (anchorsOf (ps @ [P])) x = Some (colorId P)" using m by auto
    moreover have "(\<exists>Q \<in> set (ps @ [P]). (x = path Q ! 0 \<or> x = path Q ! (length (path Q) - 1)) \<and>
                      c = colorId Q) \<longleftrightarrow> c = colorId P"
    proof
      assume "\<exists>Q \<in> set (ps @ [P]). (x = path Q ! 0 \<or> x = path Q ! (length (path Q) - 1)) \<and>
                c = colorId Q"
      then obtain Q where Q: "Q \<in> set (ps @ [P])"
        "x = path Q ! 0 \<or> x = path Q ! (length (path Q) - 1)" "c = colorId Q" by blast
      show "c = colorId P"
      proof (cases "Q = P")
        case True
        with Q(3) show ?thesis by simp
      next
        case False
        with Q(1) have "Q \<in> set ps" by simp
        from old[OF this] Q(2) \<open>x = ?f \<or> x = ?l\<close> show ?thesis by metis
      qed
    next
      assume "c = colorId P"
      with True show "\<exists>Q \<in> set (ps @ [P]). (x = path Q ! 0 \<or> x = path Q ! (length (path Q) - 1)) \<and>
                c = colorId Q" by auto
    qed
    ultimately show ?thesis by (metis option.inject)
  next
    case False
    then have "map_of (anchorsOf (ps @ [P])) x = map_of (anchorsOf ps) x" using m by simp
    moreover have "(\<exists>Q \<in> set (ps @ [P]). (x = path Q ! 0 \<or> x = path Q ! (length (path Q) - 1)) \<and>
                      c = colorId Q) \<longleftrightarrow>
                   (\<exists>Q \<in> set ps. (x = path Q ! 0 \<or> x = path Q ! (length (path Q) - 1)) \<and>
                      c = colorId Q)"
      using False by auto
    ultimately show ?thesis using snoc.IH[OF d] by simp
  qed
qed

lemma endpoints_subset:
  "\<forall>P \<in> set ps. path P \<noteq> [] \<Longrightarrow> set (endpoints ps) \<subseteq> set (allCells ps)"
  by (induction ps) (auto simp: endpoints_def allCells_def)

lemma distinct_endpoints:
  "distinct (allCells ps) \<Longrightarrow> \<forall>P \<in> set ps. 2 \<le> length (path P) \<Longrightarrow> distinct (endpoints ps)"
proof (induction ps)
  case Nil
  then show ?case by (simp add: endpoints_def)
next
  case (Cons P ps)
  from Cons.prems(1) have dp: "distinct (path P)" and dr: "distinct (allCells ps)"
    and disj: "set (path P) \<inter> set (allCells ps) = {}"
    by (simp_all add: allCells_def)
  from Cons.prems(2) have l: "2 \<le> length (path P)" and r: "\<forall>Q \<in> set ps. 2 \<le> length (path Q)"
    by simp_all
  from r have "\<forall>Q \<in> set ps. path Q \<noteq> []" by auto
  then have sub: "set (endpoints ps) \<subseteq> set (allCells ps)" by (rule endpoints_subset)
  from l have i0: "0 < length (path P)" and i1: "length (path P) - 1 < length (path P)"
    and i01: "0 \<noteq> length (path P) - 1" by linarith+
  then have ne: "path P ! 0 \<noteq> path P ! (length (path P) - 1)"
    using nth_eq_iff_index_eq[OF dp] by blast
  have "path P ! 0 \<in> set (path P)" "path P ! (length (path P) - 1) \<in> set (path P)"
    using nth_mem[OF i0] nth_mem[OF i1] by blast+
  with disj sub have "path P ! 0 \<notin> set (endpoints ps)"
    "path P ! (length (path P) - 1) \<notin> set (endpoints ps)" by auto
  moreover have "endpoints (P # ps) = [path P ! 0, path P ! (length (path P) - 1)] @ endpoints ps"
    by (simp add: endpoints_def)
  ultimately show ?case using ne Cons.IH[OF dr r] by simp
qed

lemma pushAnchor_keys: "fst ` set (pushAnchor m c idx) = insert c (fst ` set m)"
  by (induction m c idx rule: pushAnchor.induct) auto

lemma pushAnchor_sorted:
  "sorted_wrt (<) (map fst m) \<Longrightarrow> sorted_wrt (<) (map fst (pushAnchor m c idx))"
proof (induction m c idx rule: pushAnchor.induct)
  case (1 c idx)
  then show ?case by simp
next
  case (2 k v m c idx)
  show ?case
  proof (cases "c = k")
    case True
    with "2.prems" show ?thesis by simp
  next
    case ne: False
    show ?thesis
    proof (cases "c < k")
      case True
      with "2.prems" ne show ?thesis by auto
    next
      case False
      from "2.prems" have s: "sorted_wrt (<) (map fst m)" and a: "\<forall>x \<in> set m. k < fst x" by auto
      from "2.IH"[OF ne False s] have "sorted_wrt (<) (map fst (pushAnchor m c idx))" .
      moreover have "\<forall>x \<in> set (pushAnchor m c idx). k < fst x"
      proof
        fix x assume "x \<in> set (pushAnchor m c idx)"
        then have "fst x \<in> insert c (fst ` set m)" using pushAnchor_keys[of m c idx] by blast
        with a ne False show "k < fst x" by auto
      qed
      ultimately show ?thesis using ne False by simp
    qed
  qed
qed

lemma pushAnchor_map_of:
  "sorted_wrt (<) (map fst m) \<Longrightarrow>
     map_of (pushAnchor m c idx) =
       (map_of m)(c \<mapsto> (case map_of m c of None \<Rightarrow> [idx] | Some v \<Rightarrow> v @ [idx]))"
proof (induction m c idx rule: pushAnchor.induct)
  case (1 c idx)
  then show ?case by simp
next
  case (2 k v m c idx)
  show ?case
  proof (cases "c = k")
    case True
    then show ?thesis by (simp add: fun_eq_iff)
  next
    case ne: False
    show ?thesis
    proof (cases "c < k")
      case True
      from "2.prems" have "\<forall>x \<in> set m. k < fst x" by auto
      with True have "c \<notin> fst ` set m" by auto
      then have "map_of m c = None" by (simp add: map_of_eq_None_iff)
      with True ne show ?thesis by (simp add: fun_eq_iff)
    next
      case False
      from "2.prems" have "sorted_wrt (<) (map fst m)" by simp
      from "2.IH"[OF ne False this] ne False show ?thesis by (auto simp: fun_eq_iff)
    qed
  qed
qed

lemma group_fold:
  "sorted_wrt (<) (map fst m0) \<Longrightarrow>
     sorted_wrt (<) (map fst (foldl (\<lambda>m (idx, c). pushAnchor m c idx) m0 as)) \<and>
     map_of (foldl (\<lambda>m (idx, c). pushAnchor m c idx) m0 as) c =
       (case map_of m0 c of
          None \<Rightarrow> (if filter (\<lambda>e. snd e = c) as = [] then None
                    else Some (map fst (filter (\<lambda>e. snd e = c) as)))
        | Some v \<Rightarrow> Some (v @ map fst (filter (\<lambda>e. snd e = c) as)))"
proof (induction as arbitrary: m0)
  case Nil
  then show ?case by (simp split: option.splits)
next
  case (Cons a as)
  obtain idx c' where a: "a = (idx, c')" by (cases a)
  let ?m1 = "pushAnchor m0 c' idx"
  have s1: "sorted_wrt (<) (map fst ?m1)" by (rule pushAnchor_sorted[OF Cons.prems])
  have m1: "map_of ?m1 = (map_of m0)(c' \<mapsto> (case map_of m0 c' of None \<Rightarrow> [idx] | Some v \<Rightarrow> v @ [idx]))"
    by (rule pushAnchor_map_of[OF Cons.prems])
  from Cons.IH[OF s1] a m1 show ?case
    by (auto split: option.splits)
qed

lemma groupAnchors_map_of:
  "map_of (groupAnchors as) c =
     (if filter (\<lambda>e. snd e = c) as = [] then None
      else Some (map fst (filter (\<lambda>e. snd e = c) as)))"
  using group_fold[of "[]" as c] by (simp add: groupAnchors_def)

lemma validateAnchors_D:
  assumes "validateAnchors as w" "filter (\<lambda>e. snd e = c) as \<noteq> []"
  shows "length (map fst (filter (\<lambda>e. snd e = c) as)) = 2 \<and>
         \<not> areAdjacent (map fst (filter (\<lambda>e. snd e = c) as) ! 0)
             (map fst (filter (\<lambda>e. snd e = c) as) ! 1) w"
proof -
  let ?cs = "map fst (filter (\<lambda>e. snd e = c) as)"
  from assms(2) have "map_of (groupAnchors as) c = Some ?cs" by (simp add: groupAnchors_map_of)
  then have "(c, ?cs) \<in> set (groupAnchors as)" by (rule map_of_SomeD)
  with assms(1) show ?thesis
    unfolding validateAnchors_def list_all_iff by fastforce
qed

lemma areAdjacent_sym: "areAdjacent a b w = areAdjacent b a w"
  by (auto simp: areAdjacent_def Let_def)

subsection \<open>Levels of the primary generator\<close>

lemma anchorsOf_mem:
  assumes d: "distinct (allCells ps)" and l: "\<forall>P \<in> set ps. 3 \<le> length (path P)"
  shows "(x, c) \<in> set (anchorsOf ps) \<longleftrightarrow>
           (\<exists>P \<in> set ps. (x = path P ! 0 \<or> x = path P ! (length (path P) - 1)) \<and> c = colorId P)"
proof -
  from l have "\<forall>P \<in> set ps. 2 \<le> length (path P)" by auto
  with d have de: "distinct (endpoints ps)" by (rule distinct_endpoints)
  have keys: "distinct (map fst (anchorsOf ps))"
    by (rule sorted_less_distinct[OF anchorsOf_sorted])
  have "(x, c) \<in> set (anchorsOf ps) \<longleftrightarrow> map_of (anchorsOf ps) x = Some c"
    using keys by simp
  with anchorsOf_map_of[OF de] show ?thesis by simp
qed

lemma colour_cells:
  assumes d: "distinct (allCells ps)" and l: "\<forall>P \<in> set ps. 3 \<le> length (path P)"
    and dc: "distinct (map colorId ps)" and P: "P \<in> set ps"
  shows "set (map fst (filter (\<lambda>e. snd e = colorId P) (anchorsOf ps))) =
           {path P ! 0, path P ! (length (path P) - 1)}"
proof -
  from dc have inj: "inj_on colorId (set ps)" by (simp add: distinct_map)
  have same: "\<And>Q. Q \<in> set ps \<Longrightarrow> colorId P = colorId Q \<Longrightarrow> Q = P"
    using inj P by (auto dest: inj_onD)
  have "\<And>x. x \<in> set (map fst (filter (\<lambda>e. snd e = colorId P) (anchorsOf ps))) \<longleftrightarrow>
              (x, colorId P) \<in> set (anchorsOf ps)"
    by force
  moreover have "\<And>x. (x, colorId P) \<in> set (anchorsOf ps) \<longleftrightarrow>
              x = path P ! 0 \<or> x = path P ! (length (path P) - 1)"
    unfolding anchorsOf_mem[OF d l] using same P by blast
  ultimately show ?thesis by blast
qed

lemma anchors_not_adjacent:
  assumes d: "distinct (allCells ps)" and l: "\<forall>P \<in> set ps. 3 \<le> length (path P)"
    and dc: "distinct (map colorId ps)" and v: "validateAnchors (anchorsOf ps) w"
    and P: "P \<in> set ps"
  shows "\<not> areAdjacent (path P ! 0) (path P ! (length (path P) - 1)) w"
proof -
  let ?cs = "map fst (filter (\<lambda>e. snd e = colorId P) (anchorsOf ps))"
  let ?f = "path P ! 0" and ?l = "path P ! (length (path P) - 1)"
  have s: "set ?cs = {?f, ?l}" by (rule colour_cells[OF d l dc P])
  have "filter (\<lambda>e. snd e = colorId P) (anchorsOf ps) \<noteq> []"
  proof
    assume "filter (\<lambda>e. snd e = colorId P) (anchorsOf ps) = []"
    then have "set ?cs = {}" by simp
    with s show False by simp
  qed
  from validateAnchors_D[OF v this]
  have len: "length ?cs = 2" and na: "\<not> areAdjacent (?cs ! 0) (?cs ! 1) w"
    by (simp_all del: nth_map)
  from len obtain a b where cs: "?cs = [a, b]"
    by (auto simp: numeral_2_eq_2 length_Suc_conv)
  from s cs have "{a, b} = {?f, ?l}" by simp
  then have "(a = ?f \<and> b = ?l) \<or> (a = ?l \<and> b = ?f)" by (auto simp: doubleton_eq_iff)
  moreover from na cs have "\<not> areAdjacent a b w" by simp
  ultimately show ?thesis using areAdjacent_sym by blast
qed

lemma finishAttempt_ok:
  assumes inv: "fillInv (w * h) st"
    and fin: "finishAttempt rs w h minC tc st = (Some lvl, p)"
  shows "\<exists>ps. primaryLevelOk w h lvl ps \<and> int (length ps) = tc \<and> minC \<le> tc"
proof -
  let ?sh = "shuffle rs (nat tc - 1) [0..<nat tc] (sPos st)"
  obtain ca p1 where sh: "?sh = (ca, p1)" by (cases ?sh)
  let ?ps = "recolor ca (sPaths st)"
  let ?as = "anchorsOf ?ps"
  from fin sh have c: "sFilledCount st = w * h" "minC \<le> int (length (sPaths st))"
    "int (length (sPaths st)) = tc" "validateAnchors ?as w"
    and lvl: "lvl = \<lparr>width = w, height = h, anchors = ?as, difficulty = length ?ps,
                      solvedPaths = Some ?ps\<rparr>"
    unfolding finishAttempt_def Let_def by (auto split: if_splits)
  from inv have d0: "distinct (allCells (sPaths st))"
    and r0: "\<forall>x \<in> set (allCells (sPaths st)). x < w * h"
    and f0: "sFilledCount st = length (allCells (sPaths st))"
    and l0: "\<forall>P \<in> set (sPaths st). 3 \<le> length (path P)"
    by (simp_all add: fillInv_def)
  have ac: "allCells ?ps = allCells (sPaths st)" by (rule allCells_recolor)
  have d: "distinct (allCells ?ps)" using d0 ac by simp
  have full: "set (allCells ?ps) = {0..<w * h}"
    unfolding ac using distinct_card_full[OF d0] f0 c(1) r0 by simp
  have l: "\<forall>P \<in> set ?ps. 3 \<le> length (path P)"
  proof
    fix P assume "P \<in> set ?ps"
    then have "path P \<in> set (map path ?ps)" by simp
    then have "path P \<in> set (map path (sPaths st))" by (simp only: recolor_paths)
    with l0 show "3 \<le> length (path P)" by auto
  qed
  have "nat tc - 1 < length [0..<nat tc] \<or> nat tc - 1 = 0" by auto
  from shuffle_perm[OF this sh] have "length ca = nat tc" "distinct ca" by simp_all
  with c(3) have dc: "distinct (map colorId ?ps)"
    by (intro recolor_colors_distinct) auto
  have keys: "distinct (map fst ?as)" by (rule sorted_less_distinct[OF anchorsOf_sorted])
  have ne: "\<And>P. P \<in> set ?ps \<Longrightarrow> path P \<noteq> []" using l by fastforce
  have mem: "\<forall>cell c. (cell, c) \<in> set ?as \<longleftrightarrow>
               (\<exists>P \<in> set ?ps. colorId P = c \<and> (cell = hd (path P) \<or> cell = last (path P)))"
    unfolding anchorsOf_mem[OF d l]
    using ne by (metis hd_conv_nth last_conv_nth)
  have adj: "\<forall>P \<in> set ?ps. \<not> areAdjacent (hd (path P)) (last (path P)) w"
  proof
    fix P assume P: "P \<in> set ?ps"
    from anchors_not_adjacent[OF d l dc c(4) P] ne[OF P]
    show "\<not> areAdjacent (hd (path P)) (last (path P)) w"
      by (simp add: hd_conv_nth last_conv_nth)
  qed
  have "primaryLevelOk w h lvl ?ps"
    unfolding primaryLevelOk_def using lvl d full l dc keys mem adj by simp
  moreover have "int (length ?ps) = tc" using c(3) by (simp add: recolor_length)
  ultimately show ?thesis using c(2,3) by auto
qed

lemma initialState_inv: "fillInv n (initialState n p)"
  by (simp add: fillInv_def initialState_def cellsOk_def allCells_def)

lemma runAttempt_ok:
  assumes "runAttempt rs w h minC tc p = (Some lvl, q)"
  shows "\<exists>ps. primaryLevelOk w h lvl ps \<and> int (length ps) = tc \<and> minC \<le> tc"
proof -
  let ?st = "fillGrid rs w h tc (initialState (w * h) p)"
  from assms have fin: "finishAttempt rs w h minC tc ?st = (Some lvl, q)"
    by (simp add: runAttempt_def)
  then have ns: "\<not> sStuck ?st"
    unfolding finishAttempt_def Let_def by (auto split: if_splits prod.splits)
  have "\<not> sStuck (initialState (w * h) p)" by (simp add: initialState_def)
  from fillGrid_inv[OF initialState_inv this ns] have "fillInv (w * h) ?st" .
  from finishAttempt_ok[OF this fin] show ?thesis .
qed

lemma attemptsLoop_ok:
  "attemptsLoop rs w h minC tc n p = (Some lvl, p') \<Longrightarrow>
     \<exists>ps. primaryLevelOk w h lvl ps \<and> int (length ps) = tc \<and> minC \<le> tc"
proof (induction n arbitrary: p)
  case 0
  then show ?case by simp
next
  case (Suc n)
  obtain r q where ra: "runAttempt rs w h minC tc p = (r, q)"
    by (cases "runAttempt rs w h minC tc p")
  show ?case
  proof (cases r)
    case None
    with Suc.prems ra have "attemptsLoop rs w h minC tc n q = (Some lvl, p')" by simp
    then show ?thesis by (rule Suc.IH)
  next
    case (Some l)
    with Suc.prems ra have "l = lvl" by simp
    with Some ra show ?thesis using runAttempt_ok by blast
  qed
qed

text \<open>
  Claim C4. When the primary generator succeeds, that is when \<open>generateLevel\<close> returns a level
  that is not flagged as a fallback, the level has the requested width and height, its solved
  paths cover every cell of the grid exactly once, the number of paths is the target number of
  colours drawn at the start (which is at least \<open>minC\<close>), every path has at least three cells,
  every path has a colour of its own, and the anchors are exactly the first and last cell of
  every path, labelled with the colour of the path; the two anchors of a colour are never
  orthogonally adjacent.
\<close>

theorem primary_success_properties:
  assumes "generateLevel mulberry32 mathRandom w h minC maxC palette seed maxAttempts
             = Inr (lvl, False)"
  shows "\<exists>ps. solvedPaths lvl = Some ps \<and> width lvl = w \<and> height lvl = h \<and>
           distinct (allCells ps) \<and> set (allCells ps) = {0..<w * h} \<and>
           int (length ps) =
             pickTargetColors (case palette of None \<Rightarrow> 20 | Some pal \<Rightarrow> length pal) minC maxC
               (randomSource mulberry32 mathRandom seed 0) \<and>
           minC \<le> int (length ps) \<and>
           (\<forall>P \<in> set ps. 3 \<le> length (path P)) \<and>
           distinct (map colorId ps) \<and> distinct (map fst (anchors lvl)) \<and>
           (\<forall>cell c. (cell, c) \<in> set (anchors lvl) \<longleftrightarrow>
              (\<exists>P \<in> set ps. colorId P = c \<and> (cell = hd (path P) \<or> cell = last (path P)))) \<and>
           (\<forall>P \<in> set ps. \<not> areAdjacent (hd (path P)) (last (path P)) w)"
proof -
  from assms obtain p where
    "attemptsLoop (randomSource mulberry32 mathRandom seed) w h minC
       (pickTargetColors (case palette of None \<Rightarrow> 20 | Some pal \<Rightarrow> length pal) minC maxC
          (randomSource mulberry32 mathRandom seed 0))
       (case maxAttempts of None \<Rightarrow> 2000 | Some m \<Rightarrow> m) 1 = (Some lvl, p)"
    by (rule generateLevel_primary_D)
  from attemptsLoop_ok[OF this] obtain ps where
    "primaryLevelOk w h lvl ps"
    "int (length ps) = pickTargetColors (case palette of None \<Rightarrow> 20 | Some pal \<Rightarrow> length pal)
        minC maxC (randomSource mulberry32 mathRandom seed 0)"
    "minC \<le> int (length ps)"
    by auto
  then show ?thesis unfolding primaryLevelOk_def by blast
qed

theorem primary_success_properties_witness:
  "generateLevel (\<lambda>s. constStream 0) centreStream 3 3 2 2 (None :: unit list option) None None =
     Inr (\<lparr>width = 3, height = 3, anchors = [(0, 1), (2, 0), (3, 0), (4, 1)], difficulty = 2,
           solvedPaths = Some [\<lparr>colorId = 1, path = [4, 1, 0]\<rparr>,
                               \<lparr>colorId = 0, path = [2, 5, 8, 7, 6, 3]\<rparr>]\<rparr>, False) \<and>
   distinct (allCells [\<lparr>colorId = 1, path = [4, 1, 0]\<rparr>, \<lparr>colorId = 0, path = [2, 5, 8, 7, 6, 3]\<rparr>]) \<and>
   set (allCells [\<lparr>colorId = 1, path = [4, 1, 0]\<rparr>, \<lparr>colorId = 0, path = [2, 5, 8, 7, 6, 3]\<rparr>])
     = {0..<3 * 3} \<and>
   pickTargetColors 20 2 2 (centreStream 0) = 2 \<and>
   \<not> areAdjacent 4 0 3 \<and> \<not> areAdjacent 2 3 3"
proof -
  let ?ps = "[\<lparr>colorId = 1, path = [4, 1, 0]\<rparr>, \<lparr>colorId = 0, path = [2, 5, 8, 7, 6, 3 :: nat]\<rparr>]"
  from primary_success_properties[OF centreStream_run] obtain ps where
    sp: "Some ?ps = Some ps"
    and d: "distinct (allCells ps)" and f: "set (allCells ps) = {0..<3 * 3}"
    and n: "int (length ps) = pickTargetColors
              (case (None :: unit list option) of None \<Rightarrow> 20 | Some pal \<Rightarrow> length pal) 2 2
              (randomSource (\<lambda>s. constStream 0) centreStream None 0)"
    and a: "\<forall>P \<in> set ps. \<not> areAdjacent (hd (path P)) (last (path P)) 3"
    by auto
  from sp have ps: "ps = ?ps" by simp
  from n have n': "pickTargetColors 20 2 2 (centreStream 0) = 2"
    by (simp add: ps randomSource_def)
  from a have "\<not> areAdjacent 4 0 3" "\<not> areAdjacent 2 3 3" unfolding ps by simp_all
  with d f n' centreStream_run show ?thesis unfolding ps by blast
qed

section \<open>The daily challenge\<close>

text \<open>
  Claim C8. The seed of the daily puzzle is \<open>year * 10000 + month * 100 + day\<close> of the date
  string, so that \<open>2024-01-15\<close> gives \<open>20240115\<close> and every caller gets the same puzzle for the
  same date; the grid is 8 by 8 with the colour counts of \<open>calculateColorCounts\<close>. The code
  does not do this on a host west of Greenwich: the date-only string is read as midnight UTC
  and its fields are taken in local time, so at UTC-05:00 the string \<open>2024-01-15\<close> gives the
  seed \<open>20240114\<close>, while at UTC+01:00 it gives \<open>20240115\<close>. Two players at noon of their
  local 15 January 2024, both with the date string \<open>2024-01-15\<close>, thus seed the generator
  differently. The colour counts on the 8 by 8 grid are those of the common heuristic, 7 to
  11 for a palette of 20 colours.
\<close>

theorem dateToSeed_west_of_utc:
  "dateToSeed (- 300) ''2024-01-15'' = Some 20240114 \<and>
   dateToSeed 60 ''2024-01-15'' = Some 20240115 \<and>
   getTodayDateString (- 300) 1705338000000 = ''2024-01-15'' \<and>
   getTodayDateString 60 1705316400000 = ''2024-01-15'' \<and>
   dailySeed (- 300) 1705338000000 = Some 20240114 \<and>
   dailySeed 60 1705316400000 = Some 20240115 \<and>
   calculateColorCounts 8 8 20 = (7, 11)"
  by code_simp

end
